theory Spec2Isabelle
  imports Main "HOL-Library.Word" "HOL-Library.While_Combinator"
begin

section \<open>Machine types and constants\<close>

text \<open>
  The library computes with \<^verbatim>\<open>int16_t\<close>, \<^verbatim>\<open>uint16_t\<close> and \<^verbatim>\<open>uint8_t\<close>.  Parameters,
  locals and the static members keep these types as words.  C++ evaluates every
  arithmetic expression over them in \<^verbatim>\<open>int\<close> (32 bits, which none of the expressions
  below can overflow) and converts the result back on assignment or parameter passing:
  the model reads a word with \<open>sint\<close> or \<open>unat\<close>, computes in \<open>int\<close>, and converts back with
  \<open>i16\<close> or \<open>u8\<close>, which wrap around as the target compiler does.
\<close>

type_synonym int16 = "16 word"
type_synonym uint16 = "16 word"
type_synonym uint8 = "8 word"

definition i16 :: "int \<Rightarrow> int16" where
  "i16 v = word_of_int v"

definition u8 :: "int \<Rightarrow> uint8" where
  "u8 v = word_of_int v"

lemma sint_i16: "- 32768 \<le> v \<Longrightarrow> v \<le> 32767 \<Longrightarrow> sint (i16 v) = v"
  by (simp add: i16_def sint_sbintrunc' signed_take_bit_int_eq_self)

lemma sint_int16_range: "- 32768 \<le> sint (a :: int16) \<and> sint a \<le> 32767"
  using sint_ge [of a] sint_lt [of a] by simp

definition LCD_H_RES :: int where
  "LCD_H_RES = 800"

definition LCD_V_RES :: int where
  "LCD_V_RES = 480"

definition COLOR_BLACK :: uint16 where
  "COLOR_BLACK = 0x0000"

definition COLOR_WHITE :: uint16 where
  "COLOR_WHITE = 0xFFFF"

datatype ScreenRotation = ROTATION_0 | ROTATION_90 | ROTATION_180 | ROTATION_270

text \<open>
  A \<^verbatim>\<open>char\<close> is one byte.  The library compares it with 0 and 127, so the model reads it
  as a signed byte (\<open>schar\<close>); with an unsigned \<^verbatim>\<open>char\<close> the comparisons
  \<^verbatim>\<open>c >= 0 && c <= 127\<close> accept and reject the same bytes.
\<close>

definition schar :: "char \<Rightarrow> int" where
  "schar c = (if (of_char c :: int) < 128 then of_char c else of_char c - 256)"

definition NUL :: char where
  "NUL = CHR 0x00"

definition font8x8_basic :: "uint8 list list" where
  "font8x8_basic = [
    [0x00, 0x00, 0x00, 0x00, 0x00, 0x00, 0x00, 0x00],
    [0x00, 0x00, 0x00, 0x00, 0x00, 0x00, 0x00, 0x00],
    [0x00, 0x00, 0x00, 0x00, 0x00, 0x00, 0x00, 0x00],
    [0x00, 0x00, 0x00, 0x00, 0x00, 0x00, 0x00, 0x00],
    [0x00, 0x00, 0x00, 0x00, 0x00, 0x00, 0x00, 0x00],
    [0x00, 0x00, 0x00, 0x00, 0x00, 0x00, 0x00, 0x00],
    [0x00, 0x00, 0x00, 0x00, 0x00, 0x00, 0x00, 0x00],
    [0x00, 0x00, 0x00, 0x00, 0x00, 0x00, 0x00, 0x00],
    [0x00, 0x00, 0x00, 0x00, 0x00, 0x00, 0x00, 0x00],
    [0x00, 0x00, 0x00, 0x00, 0x00, 0x00, 0x00, 0x00],
    [0x00, 0x00, 0x00, 0x00, 0x00, 0x00, 0x00, 0x00],
    [0x00, 0x00, 0x00, 0x00, 0x00, 0x00, 0x00, 0x00],
    [0x00, 0x00, 0x00, 0x00, 0x00, 0x00, 0x00, 0x00],
    [0x00, 0x00, 0x00, 0x00, 0x00, 0x00, 0x00, 0x00],
    [0x00, 0x00, 0x00, 0x00, 0x00, 0x00, 0x00, 0x00],
    [0x00, 0x00, 0x00, 0x00, 0x00, 0x00, 0x00, 0x00],
    [0x00, 0x00, 0x00, 0x00, 0x00, 0x00, 0x00, 0x00],
    [0x00, 0x00, 0x00, 0x00, 0x00, 0x00, 0x00, 0x00],
    [0x00, 0x00, 0x00, 0x00, 0x00, 0x00, 0x00, 0x00],
    [0x00, 0x00, 0x00, 0x00, 0x00, 0x00, 0x00, 0x00],
    [0x00, 0x00, 0x00, 0x00, 0x00, 0x00, 0x00, 0x00],
    [0x00, 0x00, 0x00, 0x00, 0x00, 0x00, 0x00, 0x00],
    [0x00, 0x00, 0x00, 0x00, 0x00, 0x00, 0x00, 0x00],
    [0x00, 0x00, 0x00, 0x00, 0x00, 0x00, 0x00, 0x00],
    [0x00, 0x00, 0x00, 0x00, 0x00, 0x00, 0x00, 0x00],
    [0x00, 0x00, 0x00, 0x00, 0x00, 0x00, 0x00, 0x00],
    [0x00, 0x00, 0x00, 0x00, 0x00, 0x00, 0x00, 0x00],
    [0x00, 0x00, 0x00, 0x00, 0x00, 0x00, 0x00, 0x00],
    [0x00, 0x00, 0x00, 0x00, 0x00, 0x00, 0x00, 0x00],
    [0x00, 0x00, 0x00, 0x00, 0x00, 0x00, 0x00, 0x00],
    [0x00, 0x00, 0x00, 0x00, 0x00, 0x00, 0x00, 0x00],
    [0x00, 0x00, 0x00, 0x00, 0x00, 0x00, 0x00, 0x00],
    [0x00, 0x00, 0x00, 0x00, 0x00, 0x00, 0x00, 0x00],
    [0x18, 0x3C, 0x3C, 0x18, 0x18, 0x00, 0x18, 0x00],
    [0x36, 0x36, 0x00, 0x00, 0x00, 0x00, 0x00, 0x00],
    [0x36, 0x36, 0x7F, 0x36, 0x7F, 0x36, 0x36, 0x00],
    [0x0C, 0x3E, 0x03, 0x1E, 0x30, 0x1F, 0x0C, 0x00],
    [0x00, 0x63, 0x33, 0x18, 0x0C, 0x66, 0x63, 0x00],
    [0x1C, 0x36, 0x1C, 0x6E, 0x3B, 0x33, 0x6E, 0x00],
    [0x06, 0x06, 0x03, 0x00, 0x00, 0x00, 0x00, 0x00],
    [0x18, 0x0C, 0x06, 0x06, 0x06, 0x0C, 0x18, 0x00],
    [0x06, 0x0C, 0x18, 0x18, 0x18, 0x0C, 0x06, 0x00],
    [0x00, 0x66, 0x3C, 0xFF, 0x3C, 0x66, 0x00, 0x00],
    [0x00, 0x0C, 0x0C, 0x3F, 0x0C, 0x0C, 0x00, 0x00],
    [0x00, 0x00, 0x00, 0x00, 0x00, 0x0C, 0x06, 0x00],
    [0x00, 0x00, 0x00, 0x3F, 0x00, 0x00, 0x00, 0x00],
    [0x00, 0x00, 0x00, 0x00, 0x00, 0x0C, 0x0C, 0x00],
    [0x60, 0x30, 0x18, 0x0C, 0x06, 0x03, 0x01, 0x00],
    [0x3E, 0x63, 0x73, 0x7B, 0x6F, 0x67, 0x3E, 0x00],
    [0x0C, 0x0E, 0x0C, 0x0C, 0x0C, 0x0C, 0x3F, 0x00],
    [0x1E, 0x33, 0x30, 0x1C, 0x06, 0x33, 0x3F, 0x00],
    [0x1E, 0x33, 0x30, 0x1C, 0x30, 0x33, 0x1E, 0x00],
    [0x38, 0x3C, 0x36, 0x33, 0x7F, 0x30, 0x78, 0x00],
    [0x3F, 0x03, 0x1F, 0x30, 0x30, 0x33, 0x1E, 0x00],
    [0x1C, 0x06, 0x03, 0x1F, 0x33, 0x33, 0x1E, 0x00],
    [0x3F, 0x33, 0x30, 0x18, 0x0C, 0x0C, 0x0C, 0x00],
    [0x1E, 0x33, 0x33, 0x1E, 0x33, 0x33, 0x1E, 0x00],
    [0x1E, 0x33, 0x33, 0x3E, 0x30, 0x18, 0x0E, 0x00],
    [0x00, 0x0C, 0x0C, 0x00, 0x00, 0x0C, 0x0C, 0x00],
    [0x00, 0x0C, 0x0C, 0x00, 0x00, 0x0C, 0x06, 0x00],
    [0x18, 0x0C, 0x06, 0x03, 0x06, 0x0C, 0x18, 0x00],
    [0x00, 0x00, 0x3F, 0x00, 0x00, 0x3F, 0x00, 0x00],
    [0x06, 0x0C, 0x18, 0x30, 0x18, 0x0C, 0x06, 0x00],
    [0x1E, 0x33, 0x30, 0x18, 0x0C, 0x00, 0x0C, 0x00],
    [0x3E, 0x63, 0x7B, 0x7B, 0x7B, 0x03, 0x1E, 0x00],
    [0x0C, 0x1E, 0x33, 0x33, 0x3F, 0x33, 0x33, 0x00],
    [0x3F, 0x66, 0x66, 0x3E, 0x66, 0x66, 0x3F, 0x00],
    [0x3C, 0x66, 0x03, 0x03, 0x03, 0x66, 0x3C, 0x00],
    [0x1F, 0x36, 0x66, 0x66, 0x66, 0x36, 0x1F, 0x00],
    [0x7F, 0x46, 0x16, 0x1E, 0x16, 0x46, 0x7F, 0x00],
    [0x7F, 0x46, 0x16, 0x1E, 0x16, 0x06, 0x0F, 0x00],
    [0x3C, 0x66, 0x03, 0x03, 0x73, 0x66, 0x7C, 0x00],
    [0x33, 0x33, 0x33, 0x3F, 0x33, 0x33, 0x33, 0x00],
    [0x1E, 0x0C, 0x0C, 0x0C, 0x0C, 0x0C, 0x1E, 0x00],
    [0x78, 0x30, 0x30, 0x30, 0x33, 0x33, 0x1E, 0x00],
    [0x67, 0x66, 0x36, 0x1E, 0x36, 0x66, 0x67, 0x00],
    [0x0F, 0x06, 0x06, 0x06, 0x46, 0x66, 0x7F, 0x00],
    [0x63, 0x77, 0x7F, 0x7F, 0x6B, 0x63, 0x63, 0x00],
    [0x63, 0x67, 0x6F, 0x7B, 0x73, 0x63, 0x63, 0x00],
    [0x1C, 0x36, 0x63, 0x63, 0x63, 0x36, 0x1C, 0x00],
    [0x3F, 0x66, 0x66, 0x3E, 0x06, 0x06, 0x0F, 0x00],
    [0x1E, 0x33, 0x33, 0x33, 0x3B, 0x1E, 0x38, 0x00],
    [0x3F, 0x66, 0x66, 0x3E, 0x36, 0x66, 0x67, 0x00],
    [0x1E, 0x33, 0x07, 0x0E, 0x38, 0x33, 0x1E, 0x00],
    [0x3F, 0x2D, 0x0C, 0x0C, 0x0C, 0x0C, 0x1E, 0x00],
    [0x33, 0x33, 0x33, 0x33, 0x33, 0x33, 0x3F, 0x00],
    [0x33, 0x33, 0x33, 0x33, 0x33, 0x1E, 0x0C, 0x00],
    [0x63, 0x63, 0x63, 0x6B, 0x7F, 0x77, 0x63, 0x00],
    [0x63, 0x63, 0x36, 0x1C, 0x1C, 0x36, 0x63, 0x00],
    [0x33, 0x33, 0x33, 0x1E, 0x0C, 0x0C, 0x1E, 0x00],
    [0x7F, 0x63, 0x31, 0x18, 0x4C, 0x66, 0x7F, 0x00],
    [0x1E, 0x06, 0x06, 0x06, 0x06, 0x06, 0x1E, 0x00],
    [0x03, 0x06, 0x0C, 0x18, 0x30, 0x60, 0x40, 0x00],
    [0x1E, 0x18, 0x18, 0x18, 0x18, 0x18, 0x1E, 0x00],
    [0x08, 0x1C, 0x36, 0x63, 0x00, 0x00, 0x00, 0x00],
    [0x00, 0x00, 0x00, 0x00, 0x00, 0x00, 0x00, 0xFF],
    [0x0C, 0x0C, 0x18, 0x00, 0x00, 0x00, 0x00, 0x00],
    [0x00, 0x00, 0x1E, 0x30, 0x3E, 0x33, 0x6E, 0x00],
    [0x07, 0x06, 0x06, 0x3E, 0x66, 0x66, 0x3B, 0x00],
    [0x00, 0x00, 0x1E, 0x33, 0x03, 0x33, 0x1E, 0x00],
    [0x38, 0x30, 0x30, 0x3E, 0x33, 0x33, 0x6E, 0x00],
    [0x00, 0x00, 0x1E, 0x33, 0x3F, 0x03, 0x1E, 0x00],
    [0x1C, 0x36, 0x06, 0x0F, 0x06, 0x06, 0x0F, 0x00],
    [0x00, 0x00, 0x6E, 0x33, 0x33, 0x3E, 0x30, 0x1F],
    [0x07, 0x06, 0x36, 0x6E, 0x66, 0x66, 0x67, 0x00],
    [0x0C, 0x00, 0x0E, 0x0C, 0x0C, 0x0C, 0x1E, 0x00],
    [0x30, 0x00, 0x30, 0x30, 0x30, 0x33, 0x33, 0x1E],
    [0x07, 0x06, 0x66, 0x36, 0x1E, 0x36, 0x67, 0x00],
    [0x0E, 0x0C, 0x0C, 0x0C, 0x0C, 0x0C, 0x1E, 0x00],
    [0x00, 0x00, 0x33, 0x7F, 0x7F, 0x6B, 0x63, 0x00],
    [0x00, 0x00, 0x1F, 0x33, 0x33, 0x33, 0x33, 0x00],
    [0x00, 0x00, 0x1E, 0x33, 0x33, 0x33, 0x1E, 0x00],
    [0x00, 0x00, 0x3B, 0x66, 0x66, 0x3E, 0x06, 0x0F],
    [0x00, 0x00, 0x6E, 0x33, 0x33, 0x3E, 0x30, 0x78],
    [0x00, 0x00, 0x3B, 0x6E, 0x66, 0x06, 0x0F, 0x00],
    [0x00, 0x00, 0x3E, 0x03, 0x1E, 0x30, 0x1F, 0x00],
    [0x08, 0x0C, 0x3E, 0x0C, 0x0C, 0x2C, 0x18, 0x00],
    [0x00, 0x00, 0x33, 0x33, 0x33, 0x33, 0x6E, 0x00],
    [0x00, 0x00, 0x33, 0x33, 0x33, 0x1E, 0x0C, 0x00],
    [0x00, 0x00, 0x63, 0x6B, 0x7F, 0x7F, 0x36, 0x00],
    [0x00, 0x00, 0x63, 0x36, 0x1C, 0x36, 0x63, 0x00],
    [0x00, 0x00, 0x33, 0x33, 0x33, 0x3E, 0x30, 0x1F],
    [0x00, 0x00, 0x3F, 0x19, 0x0C, 0x26, 0x3F, 0x00],
    [0x38, 0x0C, 0x0C, 0x07, 0x0C, 0x0C, 0x38, 0x00],
    [0x18, 0x18, 0x18, 0x00, 0x18, 0x18, 0x18, 0x00],
    [0x07, 0x0C, 0x0C, 0x38, 0x0C, 0x0C, 0x07, 0x00],
    [0x6E, 0x3B, 0x00, 0x00, 0x00, 0x00, 0x00, 0x00],
    [0x00, 0x00, 0x00, 0x00, 0x00, 0x00, 0x00, 0x00]
  ]"

section \<open>The static members of FastGraphics\<close>

text \<open>
  \<open>frame_buffer\<close> is the memory the \<^verbatim>\<open>frame_buffer\<close> pointer addresses, as a map from the
  cell index (relative to the pointer) to the cell's colour; the caller's array is the
  cells \<open>0 .. LCD_H_RES * LCD_V_RES - 1\<close>.  \<open>fb_writes\<close> is not a member of the class: it
  records the index of every store through the pointer, latest first, so that the
  properties "this cell was painted" and "no store left the array" can be stated.
\<close>

record state =
  frame_buffer :: "int \<Rightarrow> uint16"
  fb_writes :: "int list"
  current_rotation :: ScreenRotation
  display_width :: int16
  display_height :: int16
  cursor_x :: int16
  cursor_y :: int16
  text_color :: uint16
  text_bg_color :: uint16
  text_size :: uint8
  text_wrap :: bool
  text_area_x :: int16
  text_area_y :: int16
  text_area_w :: int16
  text_area_h :: int16
  line_spacing :: int16

definition fb_store :: "int \<Rightarrow> uint16 \<Rightarrow> state \<Rightarrow> state" where
  "fb_store i color s =
     s\<lparr>frame_buffer := (frame_buffer s)(i := color), fb_writes := i # fb_writes s\<rparr>"

section \<open>Initialisation and rotation\<close>

definition begin_fg :: "(int \<Rightarrow> uint16) \<Rightarrow> state" where
  "begin_fg framebuffer =
     \<lparr>frame_buffer = framebuffer,
      fb_writes = [],
      current_rotation = ROTATION_0,
      display_width = i16 LCD_H_RES,
      display_height = i16 LCD_V_RES,
      cursor_x = 0,
      cursor_y = 0,
      text_color = COLOR_WHITE,
      text_bg_color = COLOR_BLACK,
      text_size = 1,
      text_wrap = True,
      text_area_x = 0,
      text_area_y = 0,
      text_area_w = i16 LCD_H_RES,
      text_area_h = i16 LCD_V_RES,
      line_spacing = 2\<rparr>"

definition setRotation :: "ScreenRotation \<Rightarrow> state \<Rightarrow> state" where
  "setRotation rotation s =
     (let s1 = s\<lparr>current_rotation := rotation\<rparr>;
          s2 = (case rotation of
                  ROTATION_0 \<Rightarrow> s1\<lparr>display_width := i16 LCD_H_RES, display_height := i16 LCD_V_RES\<rparr>
                | ROTATION_180 \<Rightarrow> s1\<lparr>display_width := i16 LCD_H_RES, display_height := i16 LCD_V_RES\<rparr>
                | ROTATION_90 \<Rightarrow> s1\<lparr>display_width := i16 LCD_V_RES, display_height := i16 LCD_H_RES\<rparr>
                | ROTATION_270 \<Rightarrow> s1\<lparr>display_width := i16 LCD_V_RES, display_height := i16 LCD_H_RES\<rparr>)
      in s2\<lparr>text_area_w := display_width s2, text_area_h := display_height s2\<rparr>)"

definition getRotation :: "state \<Rightarrow> ScreenRotation" where
  "getRotation s = current_rotation s"

definition getWidth :: "state \<Rightarrow> int16" where
  "getWidth s = display_width s"

definition getHeight :: "state \<Rightarrow> int16" where
  "getHeight s = display_height s"

section \<open>Coordinate transformation and the pixel primitive\<close>

definition transformCoordinates :: "state \<Rightarrow> int16 \<times> int16 \<Rightarrow> int16 \<times> int16" where
  "transformCoordinates s p =
     (let temp_x = fst p; temp_y = snd p in
      case current_rotation s of
        ROTATION_0 \<Rightarrow> (temp_x, temp_y)
      | ROTATION_90 \<Rightarrow> (i16 (LCD_H_RES - 1 - sint temp_y), temp_x)
      | ROTATION_180 \<Rightarrow> (i16 (LCD_H_RES - 1 - sint temp_x), i16 (LCD_V_RES - 1 - sint temp_y))
      | ROTATION_270 \<Rightarrow> (temp_y, i16 (LCD_V_RES - 1 - sint temp_x)))"

definition pixel :: "int16 \<Rightarrow> int16 \<Rightarrow> uint16 \<Rightarrow> state \<Rightarrow> state" where
  "pixel x y color s =
     (if sint x \<ge> 0 \<and> sint x < sint (display_width s) \<and> sint y \<ge> 0 \<and> sint y < sint (display_height s)
      then
        let (x', y') = transformCoordinates s (x, y) in
        if sint x' \<ge> 0 \<and> sint x' < LCD_H_RES \<and> sint y' \<ge> 0 \<and> sint y' < LCD_V_RES
        then fb_store (sint y' * LCD_H_RES + sint x') color s
        else s
      else s)"

section \<open>Filled rectangles\<close>

text \<open>
  The unrotated path of \<^verbatim>\<open>fillRect\<close> writes each row through a raw pointer, four cells
  at a time and then one at a time.  \<open>ptr\<close> is the pointer as a cell index, \<open>pixels\<close> the
  \<^verbatim>\<open>int16_t\<close> countdown.  Both loops return the pointer and the countdown they end with.
\<close>

function fill4 :: "int \<Rightarrow> int16 \<Rightarrow> uint16 \<Rightarrow> state \<Rightarrow> int \<times> int16 \<times> state" where
  "fill4 ptr pixels color s =
     (if sint pixels \<ge> 4
      then fill4 (ptr + 4) (i16 (sint pixels - 4)) color
             (fb_store (ptr + 3) color (fb_store (ptr + 2) color
               (fb_store (ptr + 1) color (fb_store ptr color s))))
      else (ptr, pixels, s))"
  by pat_completeness auto
termination
proof (relation "measure (\<lambda>(ptr, pixels, color, s). nat (sint pixels))")
  show "wf (measure (\<lambda>(ptr, pixels, color, s). nat (sint pixels)))"
    by simp
next
  fix ptr :: int and pixels :: int16 and color :: uint16 and s :: state
  assume ge: "4 \<le> sint pixels"
  have "sint pixels \<le> 32767"
    using sint_int16_range [of pixels] by simp
  with ge have "sint (i16 (sint pixels - 4)) = sint pixels - 4"
    by (intro sint_i16) simp_all
  with ge show "((ptr + 4, i16 (sint pixels - 4), color,
                  fb_store (ptr + 3) color (fb_store (ptr + 2) color
                    (fb_store (ptr + 1) color (fb_store ptr color s)))),
                 (ptr, pixels, color, s))
                \<in> measure (\<lambda>(ptr, pixels, color, s). nat (sint pixels))"
    by simp
qed

function fill1 :: "int \<Rightarrow> int16 \<Rightarrow> uint16 \<Rightarrow> state \<Rightarrow> int \<times> int16 \<times> state" where
  "fill1 ptr pixels color s =
     (if sint pixels > 0
      then fill1 (ptr + 1) (i16 (sint pixels - 1)) color (fb_store ptr color s)
      else (ptr, pixels, s))"
  by pat_completeness auto
termination
proof (relation "measure (\<lambda>(ptr, pixels, color, s). nat (sint pixels))")
  show "wf (measure (\<lambda>(ptr, pixels, color, s). nat (sint pixels)))"
    by simp
next
  fix ptr :: int and pixels :: int16 and color :: uint16 and s :: state
  assume ge: "0 < sint pixels"
  have "sint pixels \<le> 32767"
    using sint_int16_range [of pixels] by simp
  with ge have "sint (i16 (sint pixels - 1)) = sint pixels - 1"
    by (intro sint_i16) simp_all
  with ge show "((ptr + 1, i16 (sint pixels - 1), color, fb_store ptr color s),
                 (ptr, pixels, color, s))
                \<in> measure (\<lambda>(ptr, pixels, color, s). nat (sint pixels))"
    by simp
qed

definition fill_row :: "int \<Rightarrow> int16 \<Rightarrow> uint16 \<Rightarrow> state \<Rightarrow> state" where
  "fill_row ptr w color s =
     (let (ptr1, pixels1, s1) = fill4 ptr w color s;
          (ptr2, pixels2, s2) = fill1 ptr1 pixels1 color s1
      in s2)"

text \<open>
  The counted loops \<^verbatim>\<open>for (int16_t row = 0; row < h; row++)\<close> run over \<open>[0..<nat (sint h)]\<close>:
  the counter stays below \<open>h\<close>, so its increment never wraps.
\<close>

definition fillRect :: "int16 \<Rightarrow> int16 \<Rightarrow> int16 \<Rightarrow> int16 \<Rightarrow> uint16 \<Rightarrow> state \<Rightarrow> state" where
  "fillRect x y w h color s =
     (if sint x \<ge> sint (display_width s) \<or> sint y \<ge> sint (display_height s)
         \<or> sint w \<le> 0 \<or> sint h \<le> 0
      then s
      else
        let (w1, x1) = (if sint x < 0 then (i16 (sint w + sint x), 0) else (w, x));
            (h1, y1) = (if sint y < 0 then (i16 (sint h + sint y), 0) else (h, y));
            w2 = (if sint x1 + sint w1 > sint (display_width s)
                  then i16 (sint (display_width s) - sint x1) else w1);
            h2 = (if sint y1 + sint h1 > sint (display_height s)
                  then i16 (sint (display_height s) - sint y1) else h1)
        in if current_rotation s \<noteq> ROTATION_0
           then fold (\<lambda>row. fold (\<lambda>col. pixel (i16 (sint x1 + int col)) (i16 (sint y1 + int row)) color)
                               [0..<nat (sint w2)])
                  [0..<nat (sint h2)] s
           else fold (\<lambda>row. fill_row ((sint y1 + int row) * LCD_H_RES + sint x1) w2 color)
                  [0..<nat (sint h2)] s)"

definition clear :: "uint16 \<Rightarrow> state \<Rightarrow> state" where
  "clear color s = fillRect 0 0 (display_width s) (display_height s) color s"


section \<open>Text settings\<close>

definition setCursor :: "int16 \<Rightarrow> int16 \<Rightarrow> state \<Rightarrow> state" where
  "setCursor x y s = s\<lparr>cursor_x := x, cursor_y := y\<rparr>"

definition setTextColor :: "uint16 \<Rightarrow> uint16 \<Rightarrow> state \<Rightarrow> state" where
  "setTextColor color bg s = s\<lparr>text_color := color, text_bg_color := bg\<rparr>"

definition setTextSize :: "uint8 \<Rightarrow> state \<Rightarrow> state" where
  "setTextSize sz s = (if unat sz \<ge> 1 \<and> unat sz \<le> 10 then s\<lparr>text_size := sz\<rparr> else s)"

definition setTextWrap :: "bool \<Rightarrow> state \<Rightarrow> state" where
  "setTextWrap wrap s = s\<lparr>text_wrap := wrap\<rparr>"

definition setLineSpacing :: "int16 \<Rightarrow> state \<Rightarrow> state" where
  "setLineSpacing spacing s =
     (if sint spacing \<ge> 0 \<and> sint spacing \<le> 20 then s\<lparr>line_spacing := spacing\<rparr> else s)"

definition getLineSpacing :: "state \<Rightarrow> int16" where
  "getLineSpacing s = line_spacing s"

definition getCursorX :: "state \<Rightarrow> int16" where
  "getCursorX s = cursor_x s"

definition getCursorY :: "state \<Rightarrow> int16" where
  "getCursorY s = cursor_y s"

definition setTextArea :: "int16 \<Rightarrow> int16 \<Rightarrow> int16 \<Rightarrow> int16 \<Rightarrow> state \<Rightarrow> state" where
  "setTextArea x y w h s =
     s\<lparr>text_area_x := x, text_area_y := y, text_area_w := w, text_area_h := h\<rparr>"

definition clearTextArea :: "state \<Rightarrow> state" where
  "clearTextArea s =
     (let s1 = fillRect (text_area_x s) (text_area_y s) (text_area_w s) (text_area_h s)
                 (text_bg_color s) s
      in s1\<lparr>cursor_x := text_area_x s1, cursor_y := text_area_y s1\<rparr>)"

definition newLine :: "state \<Rightarrow> state" where
  "newLine s =
     (let s1 = s\<lparr>cursor_x := text_area_x s\<rparr>;
          s2 = s1\<lparr>cursor_y := i16 (sint (cursor_y s1)
                                     + (int (unat (text_size s1)) * 8 + sint (line_spacing s1)))\<rparr>
      in if sint (cursor_y s2) + int (unat (text_size s2)) * 8
              > sint (text_area_y s2) + sint (text_area_h s2)
         then clearTextArea s2
         else s2)"

definition advanceCursor :: "uint8 \<Rightarrow> uint8 \<Rightarrow> state \<Rightarrow> state" where
  "advanceCursor char_width char_height s =
     (let s1 = s\<lparr>cursor_x := i16 (sint (cursor_x s) + int (unat char_width))\<rparr>
      in if text_wrap s1
            \<and> sint (cursor_x s1) + int (unat char_width) > sint (text_area_x s1) + sint (text_area_w s1)
         then newLine s1
         else s1)"

text \<open>
  Concrete inputs for the checked examples: a framebuffer of black cells and one of white
  cells.
\<close>

definition fb_zero :: "int \<Rightarrow> uint16" where
  "fb_zero = (\<lambda>i. 0)"

definition fb_white :: "int \<Rightarrow> uint16" where
  "fb_white = (\<lambda>i. 0xFFFF)"


section \<open>Circles\<close>

text \<open>
  \<^verbatim>\<open>fillCircle\<close>: the loop \<^verbatim>\<open>while (x < y)\<close> over the locals \<open>x\<close>, \<open>y\<close> and \<open>decision\<close>.
  It ends for all values of the locals: \<open>x < y\<close> keeps \<open>x + 1\<close> and \<open>y - 1\<close> inside
  \<^verbatim>\<open>int16_t\<close>, and each round brings \<open>x\<close> and \<open>y\<close> closer.
\<close>

function fillCircle_loop ::
  "int16 \<Rightarrow> int16 \<Rightarrow> uint16 \<Rightarrow> int16 \<Rightarrow> int16 \<Rightarrow> int16 \<Rightarrow> state \<Rightarrow> state" where
  "fillCircle_loop x0 y0 color x y decision s =
     (if sint x < sint y
      then
        let (decision1, y1, s1) =
              (if sint decision < 0
               then (i16 (sint decision + (2 * sint x + 3)), y, s)
               else (i16 (sint decision + (2 * (sint x - sint y) + 5)),
                     i16 (sint y - 1),
                     fillRect (i16 (sint x0 - sint x)) (i16 (sint y0 - sint y)) (i16 (2 * sint x + 1)) 1 color
                       (fillRect (i16 (sint x0 - sint x)) (i16 (sint y0 + sint y)) (i16 (2 * sint x + 1)) 1 color s)));
            x1 = i16 (sint x + 1);
            s2 = (if sint x1 \<le> sint y1
                  then fillRect (i16 (sint x0 - sint y1)) (i16 (sint y0 - sint x1)) (i16 (2 * sint y1 + 1)) 1 color
                         (fillRect (i16 (sint x0 - sint y1)) (i16 (sint y0 + sint x1)) (i16 (2 * sint y1 + 1)) 1 color s1)
                  else s1)
        in fillCircle_loop x0 y0 color x1 y1 decision1 s2
      else s)"
  by pat_completeness auto
termination
proof (relation "measure (\<lambda>(x0, y0, color, x, y, decision, s). nat (sint y - sint x))")
  show "wf (measure (\<lambda>(x0, y0, color, x, y, decision, s). nat (sint y - sint x)))"
    by simp
next
  fix x0 y0 :: int16 and color :: uint16 and x y decision :: int16 and s :: state
    and t :: "int16 \<times> int16 \<times> state" and decision1 :: int16 and u :: "int16 \<times> state"
    and y1 :: int16 and s1 :: state and x1 :: int16 and s2 :: state
  assume lt: "sint x < sint y"
    and t: "t = (if sint decision < 0
               then (i16 (sint decision + (2 * sint x + 3)), y, s)
               else (i16 (sint decision + (2 * (sint x - sint y) + 5)),
                     i16 (sint y - 1),
                     fillRect (i16 (sint x0 - sint x)) (i16 (sint y0 - sint y)) (i16 (2 * sint x + 1)) 1 color
                       (fillRect (i16 (sint x0 - sint x)) (i16 (sint y0 + sint y)) (i16 (2 * sint x + 1)) 1 color s)))"
    and u: "(decision1, u) = t" "(y1, s1) = u"
    and x1: "x1 = i16 (sint x + 1)"
  have rx: "- 32768 \<le> sint x" and ry: "sint y \<le> 32767"
    using sint_int16_range [of x] sint_int16_range [of y] by simp_all
  have sx: "sint x1 = sint x + 1"
    unfolding x1 using lt rx ry by (intro sint_i16) simp_all
  have "sint (i16 (sint y - 1)) = sint y - 1"
    using lt rx ry by (intro sint_i16) simp_all
  then have sy: "sint y1 \<le> sint y"
    using t u by (auto split: if_splits)
  show "((x0, y0, color, x1, y1, decision1, s2), (x0, y0, color, x, y, decision, s))
          \<in> measure (\<lambda>(x0, y0, color, x, y, decision, s). nat (sint y - sint x))"
    using lt sx sy by simp
qed

definition fillCircle :: "int16 \<Rightarrow> int16 \<Rightarrow> int16 \<Rightarrow> uint16 \<Rightarrow> state \<Rightarrow> state" where
  "fillCircle x0 y0 radius color s =
     (if sint radius \<le> 0 then s
      else fillCircle_loop x0 y0 color 0 radius (i16 (1 - sint radius))
             (fillRect (i16 (sint x0 - sint radius)) y0 (i16 (2 * sint radius + 1)) 1 color s))"

text \<open>
  \<^verbatim>\<open>circle\<close>: one round of the loop \<^verbatim>\<open>while (x <= y)\<close> is \<open>circle_step\<close> on the locals
  and the state.  With wrap-around in \<open>x++\<close> and \<open>y--\<close> the loop is not obviously finite for
  every value of the locals, so it is a \<open>while_option\<close>: \<open>None\<close> stands for a loop that
  never ends.
\<close>

definition circle_step ::
  "int16 \<Rightarrow> int16 \<Rightarrow> uint16 \<Rightarrow> int16 \<times> int16 \<times> int16 \<times> state \<Rightarrow> int16 \<times> int16 \<times> int16 \<times> state" where
  "circle_step x0 y0 color = (\<lambda>(x, y, decision, s).
     let s1 = pixel (i16 (sint x0 + sint x)) (i16 (sint y0 + sint y)) color s;
         s2 = pixel (i16 (sint x0 - sint x)) (i16 (sint y0 + sint y)) color s1;
         s3 = pixel (i16 (sint x0 + sint x)) (i16 (sint y0 - sint y)) color s2;
         s4 = pixel (i16 (sint x0 - sint x)) (i16 (sint y0 - sint y)) color s3;
         s5 = pixel (i16 (sint x0 + sint y)) (i16 (sint y0 + sint x)) color s4;
         s6 = pixel (i16 (sint x0 - sint y)) (i16 (sint y0 + sint x)) color s5;
         s7 = pixel (i16 (sint x0 + sint y)) (i16 (sint y0 - sint x)) color s6;
         s8 = pixel (i16 (sint x0 - sint y)) (i16 (sint y0 - sint x)) color s7;
         (decision1, y1) =
           (if sint decision < 0
            then (i16 (sint decision + (2 * sint x + 3)), y)
            else (i16 (sint decision + (2 * (sint x - sint y) + 5)), i16 (sint y - 1)))
     in (i16 (sint x + 1), y1, decision1, s8))"

definition circle :: "int16 \<Rightarrow> int16 \<Rightarrow> int16 \<Rightarrow> uint16 \<Rightarrow> state \<Rightarrow> state option" where
  "circle x0 y0 radius color s =
     (if sint radius \<le> 0 then Some s
      else map_option (\<lambda>(x, y, decision, s'). s')
             (while_option (\<lambda>(x, y, decision, s'). sint x \<le> sint y) (circle_step x0 y0 color)
                (0, radius, i16 (1 - sint radius), s)))"

section \<open>Glyphs and text\<close>

definition drawChar ::
  "int16 \<Rightarrow> int16 \<Rightarrow> char \<Rightarrow> uint16 \<Rightarrow> uint16 \<Rightarrow> uint8 \<Rightarrow> state \<Rightarrow> state" where
  "drawChar x y c color bg sz s =
     (if schar c < 0 \<or> schar c > 127 then s
      else
        let char_data = font8x8_basic ! nat (schar c) in
        if unat sz = 1
        then fold (\<lambda>row. fold (\<lambda>col s'.
                     if bit (char_data ! row) col
                     then pixel (i16 (sint x + int col)) (i16 (sint y + int row)) color s'
                     else if bg \<noteq> color
                          then pixel (i16 (sint x + int col)) (i16 (sint y + int row)) bg s'
                          else s')
                   [0..<8])
               [0..<8] s
        else fold (\<lambda>row. fold (\<lambda>col s'.
                     if bit (char_data ! row) col
                     then fillRect (i16 (sint x + int col * int (unat sz))) (i16 (sint y + int row * int (unat sz)))
                            (i16 (int (unat sz))) (i16 (int (unat sz))) color s'
                     else if bg \<noteq> color
                          then fillRect (i16 (sint x + int col * int (unat sz))) (i16 (sint y + int row * int (unat sz)))
                                 (i16 (int (unat sz))) (i16 (int (unat sz))) bg s'
                          else s')
                   [0..<8])
               [0..<8] s)"

text \<open>
  A \<^verbatim>\<open>const char*\<close> argument is the list of the bytes it points to.  The loops
  \<^verbatim>\<open>while (*str)\<close> end at the first NUL byte, or at the end of the list, where the
  terminator stands.  \<open>text_loop\<close> carries the locals \<^verbatim>\<open>cursor_x\<close>, \<^verbatim>\<open>cursor_y\<close> of
  \<^verbatim>\<open>text\<close>, which shadow the static members.
\<close>

fun text_loop ::
  "int16 \<Rightarrow> uint16 \<Rightarrow> uint16 \<Rightarrow> uint8 \<Rightarrow> string \<Rightarrow> int16 \<Rightarrow> int16 \<Rightarrow> state \<Rightarrow> state" where
  "text_loop x color bg sz [] cx cy s = s"
| "text_loop x color bg sz (c # str) cx cy s =
     (if c = NUL then s
      else if c = CHR 0x0A
      then text_loop x color bg sz str x (i16 (sint cy + int (unat sz) * 8)) s
      else if c \<noteq> CHR 0x0D
      then text_loop x color bg sz str (i16 (sint cx + int (unat sz) * 8)) cy
             (drawChar cx cy c color bg sz s)
      else text_loop x color bg sz str cx cy s)"

definition text_fg ::
  "int16 \<Rightarrow> int16 \<Rightarrow> string \<Rightarrow> uint16 \<Rightarrow> uint16 \<Rightarrow> uint8 \<Rightarrow> state \<Rightarrow> state" where
  "text_fg x y str color bg sz s = text_loop x color bg sz str x y s"

section \<open>The print family\<close>

fun print_str :: "string \<Rightarrow> state \<Rightarrow> state" where
  "print_str [] s = s"
| "print_str (c # str) s =
     (if c = NUL then s
      else if c = CHR 0x0A then print_str str (newLine s)
      else if c = CHR 0x0D then print_str str (s\<lparr>cursor_x := text_area_x s\<rparr>)
      else if schar c \<ge> 0 \<and> schar c \<le> 127
      then print_str str
             (advanceCursor (u8 (int (unat (text_size s)) * 8)) (u8 (int (unat (text_size s)) * 8))
                (drawChar (cursor_x s) (cursor_y s) c (text_color s) (text_bg_color s) (text_size s) s))
      else print_str str s)"

definition print_char :: "char \<Rightarrow> state \<Rightarrow> state" where
  "print_char character s =
     (if character = CHR 0x0A then newLine s
      else if character = CHR 0x0D then s\<lparr>cursor_x := text_area_x s\<rparr>
      else if schar character \<ge> 0 \<and> schar character \<le> 127
      then advanceCursor (u8 (int (unat (text_size s)) * 8)) (u8 (int (unat (text_size s)) * 8))
             (drawChar (cursor_x s) (cursor_y s) character (text_color s) (text_bg_color s) (text_size s) s)
      else s)"

definition println_str :: "string \<Rightarrow> state \<Rightarrow> state" where
  "println_str str s = print_str [CHR 0x0A] (print_str str s)"

section \<open>Word wrapping\<close>

text \<open>
  The locals of \<^verbatim>\<open>printWrapped\<close>.  \<open>word_buffer\<close> is the memory at the array
  \<^verbatim>\<open>char word_buffer[50]\<close>, as a map from the index to the byte; the array itself is the
  indices 0 to 49.  \<open>wb_writes\<close> is not a variable of the function: it records the index of
  every store into \<open>word_buffer\<close>, latest first.  (\<^verbatim>\<open>word_start_x\<close> is assigned but never
  read, and is left out.)

  A store at an index outside 0 to 49 is undefined behaviour in the source.  The model
  records it in \<open>wb_writes\<close> and goes on as if the array were longer, so it follows the
  source up to the first such store only: what \<open>printWrapped\<close> returns is the result of
  the source for the runs with all stores inside the array, and for no other run.
\<close>

record wrap_locals =
  current_x :: int16
  current_y :: int16
  word_buffer :: "int \<Rightarrow> char"
  word_len :: int
  wb_writes :: "int list"

definition wb_store :: "int \<Rightarrow> char \<Rightarrow> wrap_locals \<Rightarrow> wrap_locals" where
  "wb_store i c L = L\<lparr>word_buffer := (word_buffer L)(i := c), wb_writes := i # wb_writes L\<rparr>"

text \<open>
  The bytes of \<open>word_buffer\<close> before the terminator that was stored at \<open>word_len\<close>: what
  \<^verbatim>\<open>text\<close> reads from the buffer.
\<close>

definition word_string :: "wrap_locals \<Rightarrow> string" where
  "word_string L = map (\<lambda>k. word_buffer L (int k)) [0..<nat (word_len L)]"

fun printWrapped_loop ::
  "int16 \<Rightarrow> int16 \<Rightarrow> uint16 \<Rightarrow> uint8 \<Rightarrow> int16 \<Rightarrow> string \<Rightarrow> wrap_locals \<Rightarrow> state \<Rightarrow> wrap_locals \<times> state" where
  "printWrapped_loop x maxWidth color sz line_height [] L s = (L, s)"
| "printWrapped_loop x maxWidth color sz line_height (c # str) L s =
     (if c = NUL then (L, s)
      else if c = CHR '' '' \<or> c = CHR 0x0A \<or> c = CHR 0x09 \<or> (str = [] \<or> hd str = NUL)
      then
        let L1 = (if c \<noteq> CHR '' '' \<and> c \<noteq> CHR 0x0A \<and> c \<noteq> CHR 0x09
                  then (wb_store (word_len L) c L)\<lparr>word_len := word_len L + 1\<rparr>
                  else L);
            L2 = wb_store (word_len L1) NUL L1;
            word_width = i16 (word_len L2 * int (unat sz) * 8);
            L3 = (if sint (current_x L2) + sint word_width > sint x + sint maxWidth
                     \<and> sint (current_x L2) > sint x
                  then L2\<lparr>current_x := x, current_y := i16 (sint (current_y L2) + sint line_height)\<rparr>
                  else L2);
            s1 = text_fg (current_x L3) (current_y L3) (word_string L3) color (text_bg_color s) sz s;
            L4 = L3\<lparr>current_x := i16 (sint (current_x L3) + sint word_width)\<rparr>;
            L5 = (if c = CHR '' '' then L4\<lparr>current_x := i16 (sint (current_x L4) + int (unat sz) * 8)\<rparr>
                  else if c = CHR 0x0A
                  then L4\<lparr>current_x := x, current_y := i16 (sint (current_y L4) + sint line_height)\<rparr>
                  else if c = CHR 0x09
                  then L4\<lparr>current_x := i16 (sint (current_x L4) + int (unat sz) * 8 * 4)\<rparr>
                  else L4);
            L6 = L5\<lparr>word_len := 0\<rparr>
        in printWrapped_loop x maxWidth color sz line_height str L6 s1
      else
        let L1 = (if word_len L < 49
                  then (wb_store (word_len L) c L)\<lparr>word_len := word_len L + 1\<rparr>
                  else L)
        in printWrapped_loop x maxWidth color sz line_height str L1 s)"

text \<open>
  The locals as \<^verbatim>\<open>printWrapped\<close> initialises them.  The array is not initialised by the
  function; \<open>buf\<close> is what the memory holds on entry.
\<close>

definition printWrapped_init :: "int16 \<Rightarrow> int16 \<Rightarrow> (int \<Rightarrow> char) \<Rightarrow> wrap_locals" where
  "printWrapped_init x y buf =
     \<lparr>current_x = x, current_y = y, word_buffer = buf, word_len = 0, wb_writes = []\<rparr>"

definition printWrapped_run ::
  "(int \<Rightarrow> char) \<Rightarrow> int16 \<Rightarrow> int16 \<Rightarrow> int16 \<Rightarrow> string \<Rightarrow> uint16 \<Rightarrow> uint8 \<Rightarrow> state \<Rightarrow> wrap_locals \<times> state" where
  "printWrapped_run buf x y maxWidth str color sz s =
     printWrapped_loop x maxWidth color sz (i16 (int (unat sz) * 8 + sint (line_spacing s))) str
       (printWrapped_init x y buf) s"

definition printWrapped ::
  "(int \<Rightarrow> char) \<Rightarrow> int16 \<Rightarrow> int16 \<Rightarrow> int16 \<Rightarrow> string \<Rightarrow> uint16 \<Rightarrow> uint8 \<Rightarrow> state \<Rightarrow> state" where
  "printWrapped buf x y maxWidth str color sz s = snd (printWrapped_run buf x y maxWidth str color sz s)"


section \<open>Lines and rectangle outlines\<close>

text \<open>
  The diagonal case of \<^verbatim>\<open>line\<close> is the loop \<^verbatim>\<open>while (true) { pixel; if (...) break; ... }\<close>.
  One round is \<open>line_step\<close>; its last component records that the \<^verbatim>\<open>break\<close> was taken.
  The loop is a \<open>while_option\<close>: \<open>None\<close> stands for a loop that never ends.
\<close>

definition line_step ::
  "int16 \<Rightarrow> int16 \<Rightarrow> int16 \<Rightarrow> int16 \<Rightarrow> int16 \<Rightarrow> int16 \<Rightarrow> uint16
     \<Rightarrow> int16 \<times> int16 \<times> int16 \<times> state \<times> bool \<Rightarrow> int16 \<times> int16 \<times> int16 \<times> state \<times> bool" where
  "line_step x1 y1 dx dy sx sy color = (\<lambda>(x, y, err, s, stop).
     let s' = pixel x y color s in
     if x = x1 \<and> y = y1 then (x, y, err, s', True)
     else
       let e2 = i16 (2 * sint err);
           (err1, xn) = (if sint e2 > - sint dy
                         then (i16 (sint err - sint dy), i16 (sint x + sint sx)) else (err, x));
           (err2, yn) = (if sint e2 < sint dx
                         then (i16 (sint err1 + sint dx), i16 (sint y + sint sy)) else (err1, y))
       in (xn, yn, err2, s', False))"

definition line ::
  "int16 \<Rightarrow> int16 \<Rightarrow> int16 \<Rightarrow> int16 \<Rightarrow> uint16 \<Rightarrow> state \<Rightarrow> state option" where
  "line x0 y0 x1 y1 color s =
     (if y0 = y1
      then
        let (xa, xb) = (if sint x0 > sint x1 then (x1, x0) else (x0, x1))
        in Some (fillRect xa y0 (i16 (sint xb - sint xa + 1)) 1 color s)
      else if x0 = x1
      then
        let (ya, yb) = (if sint y0 > sint y1 then (y1, y0) else (y0, y1))
        in Some (fillRect x0 ya 1 (i16 (sint yb - sint ya + 1)) color s)
      else
        let dx = i16 (\<bar>sint x1 - sint x0\<bar>);
            dy = i16 (\<bar>sint y1 - sint y0\<bar>);
            sx = (if sint x0 < sint x1 then 1 else - 1);
            sy = (if sint y0 < sint y1 then 1 else - 1);
            err = i16 (sint dx - sint dy)
        in map_option (\<lambda>(x, y, err', s', stop). s')
             (while_option (\<lambda>(x, y, err', s', stop). \<not> stop) (line_step x1 y1 dx dy sx sy color)
                (x0, y0, err, s, False)))"

definition rect :: "int16 \<Rightarrow> int16 \<Rightarrow> int16 \<Rightarrow> int16 \<Rightarrow> uint16 \<Rightarrow> state \<Rightarrow> state option" where
  "rect x y w h color s =
     Option.bind (line x y (i16 (sint x + sint w - 1)) y color s) (\<lambda>s1.
     Option.bind (line x (i16 (sint y + sint h - 1)) (i16 (sint x + sint w - 1)) (i16 (sint y + sint h - 1)) color s1) (\<lambda>s2.
     Option.bind (line x y x (i16 (sint y + sint h - 1)) color s2) (\<lambda>s3.
     line (i16 (sint x + sint w - 1)) y (i16 (sint x + sint w - 1)) (i16 (sint y + sint h - 1)) color s3)))"


section \<open>Vocabulary of the properties\<close>

text \<open>
  The definitions of this section are not code of the library: they are the notions in
  which the properties are stated.

  \<open>draws s s'\<close>: the states differ in the framebuffer and in the record of the stores
  only.  \<open>paints s0 A c f\<close>: started in a state that \<open>s0\<close> draws to, the operation \<open>f\<close>
  stores the colour \<open>c\<close> at the cells \<open>A\<close> of the framebuffer, and at no other cell.
\<close>

definition draws :: "state \<Rightarrow> state \<Rightarrow> bool" where
  "draws s s' = (s' = s\<lparr>frame_buffer := frame_buffer s', fb_writes := fb_writes s'\<rparr>)"

definition paints :: "state \<Rightarrow> int set \<Rightarrow> uint16 \<Rightarrow> (state \<Rightarrow> state) \<Rightarrow> bool" where
  "paints s0 A c f =
     (\<forall>s. draws s0 s \<longrightarrow>
        draws s (f s)
        \<and> frame_buffer (f s) = (\<lambda>i. if i \<in> A then c else frame_buffer s i)
        \<and> set (fb_writes (f s)) = A \<union> set (fb_writes s))"

text \<open>
  The logical size matches the rotation, as \<^verbatim>\<open>begin\<close> and \<^verbatim>\<open>setRotation\<close> set it.
\<close>

definition display_inv :: "state \<Rightarrow> bool" where
  "display_inv s =
     (if current_rotation s = ROTATION_0 \<or> current_rotation s = ROTATION_180
      then display_width s = i16 LCD_H_RES \<and> display_height s = i16 LCD_V_RES
      else display_width s = i16 LCD_V_RES \<and> display_height s = i16 LCD_H_RES)"

text \<open>
  \<open>on_screen\<close> is the first check of \<^verbatim>\<open>pixel\<close>: the logical pixel is on the logical
  screen.  \<open>cell_index\<close> is the index \<^verbatim>\<open>pixel\<close> computes for it, and \<open>cell_at\<close> is the same
  index given by the rotation, in unbounded integers (lemma \<open>transform_on_screen\<close> below
  relates the two).
\<close>

definition on_screen :: "state \<Rightarrow> int16 \<Rightarrow> int16 \<Rightarrow> bool" where
  "on_screen s x y =
     (sint x \<ge> 0 \<and> sint x < sint (display_width s) \<and> sint y \<ge> 0 \<and> sint y < sint (display_height s))"

definition cell_index :: "state \<Rightarrow> int16 \<Rightarrow> int16 \<Rightarrow> int" where
  "cell_index s x y = (let (x', y') = transformCoordinates s (x, y) in sint y' * LCD_H_RES + sint x')"

definition cell_at :: "ScreenRotation \<Rightarrow> int \<Rightarrow> int \<Rightarrow> int" where
  "cell_at r px py =
     (case r of
        ROTATION_0 \<Rightarrow> py * 800 + px
      | ROTATION_90 \<Rightarrow> px * 800 + (799 - py)
      | ROTATION_180 \<Rightarrow> (479 - py) * 800 + (799 - px)
      | ROTATION_270 \<Rightarrow> (479 - px) * 800 + py)"

text \<open>
  The clipping of \<^verbatim>\<open>fillRect\<close> along one axis: the start and the extent it is left with,
  in 16-bit arithmetic as the source computes them.  \<open>rect_cells\<close> is the cells of the
  rectangle \<open>x, y, w, h\<close> cut to the logical screen, in unbounded integers.
\<close>

definition clip_start :: "int16 \<Rightarrow> int16" where
  "clip_start x = (if sint x < 0 then 0 else x)"

definition clip_extent :: "int16 \<Rightarrow> int16 \<Rightarrow> int16 \<Rightarrow> int16" where
  "clip_extent x w d =
     (let w1 = (if sint x < 0 then i16 (sint w + sint x) else w)
      in if sint (clip_start x) + sint w1 > sint d then i16 (sint d - sint (clip_start x)) else w1)"

definition rect_cells :: "state \<Rightarrow> int16 \<Rightarrow> int16 \<Rightarrow> int16 \<Rightarrow> int16 \<Rightarrow> int set" where
  "rect_cells s x y w h =
     {cell_at (current_rotation s) px py | px py.
        max 0 (sint x) \<le> px \<and> px < min (sint (display_width s)) (sint x + sint w)
        \<and> max 0 (sint y) \<le> py \<and> py < min (sint (display_height s)) (sint y + sint h)}"

text \<open>
  Text layout: the height of a line including the spacing, the cursor row after a line
  break, and the pixels of the text area.
\<close>

definition line_advance :: "state \<Rightarrow> int" where
  "line_advance s = int (unat (text_size s)) * 8 + sint (line_spacing s)"

definition next_line_y :: "state \<Rightarrow> int16" where
  "next_line_y s = i16 (sint (cursor_y s) + line_advance s)"

definition in_text_area :: "state \<Rightarrow> int16 \<Rightarrow> int16 \<Rightarrow> bool" where
  "in_text_area s px py =
     (sint (text_area_x s) \<le> sint px \<and> sint px < sint (text_area_x s) + sint (text_area_w s)
      \<and> sint (text_area_y s) \<le> sint py \<and> sint py < sint (text_area_y s) + sint (text_area_h s))"

text \<open>
  \<open>writes_in_bounds\<close>: every store into the framebuffer so far had an index inside the
  buffer of \<open>LCD_H_RES * LCD_V_RES\<close> cells.
\<close>

definition writes_in_bounds :: "state \<Rightarrow> bool" where
  "writes_in_bounds s = (\<forall>i \<in> set (fb_writes s). 0 \<le> i \<and> i < LCD_H_RES * LCD_V_RES)"

definition safe :: "state \<Rightarrow> bool" where
  "safe s = (display_inv s \<and> writes_in_bounds s)"

text \<open>
  The loop of \<^verbatim>\<open>circle\<close>: its condition, and an invariant of its locals under which the
  loop ends also for the radius 32767, where \<^verbatim>\<open>y\<close> cannot be exceeded by \<^verbatim>\<open>x\<close> before
  \<^verbatim>\<open>y\<close> has been decremented.
\<close>

definition circle_cond :: "int16 \<times> int16 \<times> int16 \<times> state \<Rightarrow> bool" where
  "circle_cond = (\<lambda>(x, y, decision, s). sint x \<le> sint y)"

definition circle_locals_ok :: "int16 \<times> int16 \<times> int16 \<times> state \<Rightarrow> bool" where
  "circle_locals_ok = (\<lambda>(x, y, decision, s).
     0 \<le> sint x
     \<and> (sint y \<le> 32766
        \<or> (sint x \<le> 181 \<and> sint decision = sint x * sint x + 2 * sint x - 32766)))"

text \<open>
  \<open>circle_points x0 y0 dx dy\<close> is the eight points \<^verbatim>\<open>circle\<close> draws in one round of its
  loop, in the order of the source; the additions are those of \<^verbatim>\<open>int16_t\<close> parameters.
  \<open>mirror8 x0 y0 p\<close> is the images of the pixel \<open>p\<close> under the eight reflections about
  \<open>(x0, y0)\<close>.  \<open>stores_since s s'\<close> is the stores made after \<open>s\<close>, and \<open>painted s s'\<close>
  the logical pixels whose cell they hit.
\<close>

definition circle_points :: "int16 \<Rightarrow> int16 \<Rightarrow> int16 \<Rightarrow> int16 \<Rightarrow> (int16 \<times> int16) list" where
  "circle_points x0 y0 dx dy =
     [(x0 + dx, y0 + dy), (x0 - dx, y0 + dy), (x0 + dx, y0 - dy), (x0 - dx, y0 - dy),
      (x0 + dy, y0 + dx), (x0 - dy, y0 + dx), (x0 + dy, y0 - dx), (x0 - dy, y0 - dx)]"

definition mirror8 :: "int16 \<Rightarrow> int16 \<Rightarrow> int16 \<times> int16 \<Rightarrow> (int16 \<times> int16) list" where
  "mirror8 x0 y0 p = circle_points x0 y0 (fst p - x0) (snd p - y0)"

definition stores_since :: "state \<Rightarrow> state \<Rightarrow> int list" where
  "stores_since s s' = take (length (fb_writes s') - length (fb_writes s)) (fb_writes s')"

definition painted :: "state \<Rightarrow> state \<Rightarrow> (int16 \<times> int16) set" where
  "painted s s' = {p. on_screen s (fst p) (snd p) \<and> cell_index s (fst p) (snd p) \<in> set (stores_since s s')}"

definition sym_on_screen :: "state \<Rightarrow> int16 \<Rightarrow> int16 \<Rightarrow> int set \<Rightarrow> bool" where
  "sym_on_screen s x0 y0 A =
     (\<forall>p q. on_screen s (fst p) (snd p) \<and> cell_index s (fst p) (snd p) \<in> A
            \<and> q \<in> set (mirror8 x0 y0 p) \<and> on_screen s (fst q) (snd q)
        \<longrightarrow> cell_index s (fst q) (snd q) \<in> A)"

definition circle_inv :: "state \<Rightarrow> int16 \<Rightarrow> int16 \<Rightarrow> int16 \<times> int16 \<times> int16 \<times> state \<Rightarrow> bool" where
  "circle_inv s x0 y0 = (\<lambda>(x, y, d, t).
     draws s t \<and> (\<exists>W. fb_writes t = W @ fb_writes s \<and> sym_on_screen s x0 y0 (set W)))"

text \<open>
  \<open>word_byte c\<close>: the byte is part of a word for \<^verbatim>\<open>printWrapped\<close> (no separator, not the
  terminator).  \<open>wb_zero\<close> is a word buffer holding zeros.  \<open>wb_in_bounds\<close>: every store
  into the word buffer had an index inside the array \<^verbatim>\<open>char word_buffer[50]\<close>.
\<close>

definition word_byte :: "char \<Rightarrow> bool" where
  "word_byte c = (c \<noteq> NUL \<and> c \<noteq> CHR '' '' \<and> c \<noteq> CHR 0x0A \<and> c \<noteq> CHR 0x09)"

definition wb_zero :: "int \<Rightarrow> char" where
  "wb_zero = (\<lambda>i. NUL)"

definition wb_in_bounds :: "wrap_locals \<Rightarrow> bool" where
  "wb_in_bounds L = (\<forall>i \<in> set (wb_writes L). 0 \<le> i \<and> i < 50)"

text \<open>
  The condition of the loop of \<^verbatim>\<open>line\<close>.
\<close>

definition line_cond :: "int16 \<times> int16 \<times> int16 \<times> state \<times> bool \<Rightarrow> bool" where
  "line_cond = (\<lambda>(x, y, err, s, stop). \<not> stop)"


section \<open>Drawing changes only the framebuffer\<close>

lemmas res_defs = LCD_H_RES_def LCD_V_RES_def

lemma draws_refl: "draws s s"
  by (simp add: draws_def)

lemma draws_trans: "draws s s' \<Longrightarrow> draws s' s'' \<Longrightarrow> draws s s''"
  unfolding draws_def
proof -
  assume a: "s' = s\<lparr>frame_buffer := frame_buffer s', fb_writes := fb_writes s'\<rparr>"
    and b: "s'' = s'\<lparr>frame_buffer := frame_buffer s'', fb_writes := fb_writes s''\<rparr>"
  show "s'' = s\<lparr>frame_buffer := frame_buffer s'', fb_writes := fb_writes s''\<rparr>"
    by (subst b, subst a) simp
qed

lemma draws_fields:
  assumes "draws s s'"
  shows "current_rotation s' = current_rotation s"
    and "display_width s' = display_width s"
    and "display_height s' = display_height s"
    and "cursor_x s' = cursor_x s"
    and "cursor_y s' = cursor_y s"
    and "text_color s' = text_color s"
    and "text_bg_color s' = text_bg_color s"
    and "text_size s' = text_size s"
    and "text_wrap s' = text_wrap s"
    and "text_area_x s' = text_area_x s"
    and "text_area_y s' = text_area_y s"
    and "text_area_w s' = text_area_w s"
    and "text_area_h s' = text_area_h s"
    and "line_spacing s' = line_spacing s"
  by (subst assms [unfolded draws_def], simp)+

lemma draws_fb_store: "draws s (fb_store i c s)"
  by (simp add: draws_def fb_store_def)

lemma paintsI:
  assumes "\<And>s. draws s0 s \<Longrightarrow> draws s (f s)"
    and "\<And>s i. draws s0 s \<Longrightarrow> frame_buffer (f s) i = (if i \<in> A then c else frame_buffer s i)"
    and "\<And>s. draws s0 s \<Longrightarrow> set (fb_writes (f s)) = A \<union> set (fb_writes s)"
  shows "paints s0 A c f"
  using assms unfolding paints_def by blast

lemma paints_nothing: "paints s0 {} c (\<lambda>s. s)"
  by (simp add: paints_def draws_refl)

lemma paints_fb_store: "paints s0 {i} c (fb_store i c)"
  by (rule paintsI) (simp_all add: draws_fb_store, simp_all add: fb_store_def)

lemma paints_comp:
  assumes "paints s0 A c f" and "paints s0 B c g"
  shows "paints s0 (A \<union> B) c (\<lambda>s. g (f s))"
proof (rule paintsI)
  fix s assume d: "draws s0 s"
  from assms(1) d have f: "draws s (f s)"
    "frame_buffer (f s) = (\<lambda>i. if i \<in> A then c else frame_buffer s i)"
    "set (fb_writes (f s)) = A \<union> set (fb_writes s)"
    by (simp_all add: paints_def)
  from d f(1) have d': "draws s0 (f s)" by (rule draws_trans)
  from assms(2) d' have g: "draws (f s) (g (f s))"
    "frame_buffer (g (f s)) = (\<lambda>i. if i \<in> B then c else frame_buffer (f s) i)"
    "set (fb_writes (g (f s))) = B \<union> set (fb_writes (f s))"
    by (simp_all add: paints_def)
  show "draws s (g (f s))" using f(1) g(1) by (rule draws_trans)
  show "set (fb_writes (g (f s))) = A \<union> B \<union> set (fb_writes s)"
    using f(3) g(3) by auto
  fix i show "frame_buffer (g (f s)) i = (if i \<in> A \<union> B then c else frame_buffer s i)"
    using f(2) g(2) by simp
qed

lemma paints_fold:
  assumes "\<And>k. k \<in> set ks \<Longrightarrow> paints s0 (A k) c (step k)"
  shows "paints s0 (\<Union>k\<in>set ks. A k) c (fold step ks)"
  using assms
proof (induction ks rule: rev_induct)
  case Nil
  show ?case using paints_nothing [of s0 c] by (simp add: id_def)
next
  case (snoc k ks)
  have a: "paints s0 (\<Union>k\<in>set ks. A k) c (fold step ks)"
    using snoc by simp
  have b: "paints s0 (A k) c (step k)"
    using snoc.prems by simp
  have "(\<Union>j\<in>set (ks @ [k]). A j) = (\<Union>k\<in>set ks. A k) \<union> A k"
    by auto
  then show ?case
    using paints_comp [OF a b] by simp
qed

lemma paints_cong: "paints s0 A c f \<Longrightarrow> A = B \<Longrightarrow> paints s0 B c f"
  by simp

lemma display_inv_begin: "display_inv (begin_fg fb)"
  by (simp add: display_inv_def begin_fg_def)

lemma display_inv_setRotation: "display_inv (setRotation r s)"
  by (cases r) (simp_all add: display_inv_def setRotation_def)

lemma display_inv_draws: "draws s s' \<Longrightarrow> display_inv s' = display_inv s"
  by (simp add: display_inv_def draws_fields)

lemma display_inv_dims:
  assumes "display_inv s"
  shows "sint (display_width s) = (if current_rotation s = ROTATION_0 \<or> current_rotation s = ROTATION_180 then 800 else 480)"
    and "sint (display_height s) = (if current_rotation s = ROTATION_0 \<or> current_rotation s = ROTATION_180 then 480 else 800)"
  using assms by (auto simp: display_inv_def i16_def res_defs split: if_splits)

lemma transform_on_screen:
  assumes inv: "display_inv s" and on: "on_screen s x y"
  shows "sint (fst (transformCoordinates s (x, y))) \<ge> 0"
    and "sint (fst (transformCoordinates s (x, y))) < LCD_H_RES"
    and "sint (snd (transformCoordinates s (x, y))) \<ge> 0"
    and "sint (snd (transformCoordinates s (x, y))) < LCD_V_RES"
    and "cell_index s x y = cell_at (current_rotation s) (sint x) (sint y)"
  using on display_inv_dims [OF inv]
  by (cases "current_rotation s";
      simp add: on_screen_def transformCoordinates_def cell_index_def cell_at_def res_defs sint_i16)+

lemma cell_at_range:
  assumes "display_inv s" and "on_screen s x y"
  shows "0 \<le> cell_at (current_rotation s) (sint x) (sint y)"
    and "cell_at (current_rotation s) (sint x) (sint y) < LCD_H_RES * LCD_V_RES"
  using assms(2) display_inv_dims [OF assms(1)]
  by (cases "current_rotation s"; simp add: on_screen_def cell_at_def res_defs)+

lemma on_screen_draws: "draws s s' \<Longrightarrow> on_screen s' x y = on_screen s x y"
  by (simp add: on_screen_def draws_fields)

lemma cell_index_draws: "draws s s' \<Longrightarrow> cell_index s' x y = cell_index s x y"
  by (simp add: cell_index_def transformCoordinates_def draws_fields)

lemma pixel_off_screen: "\<not> on_screen s x y \<Longrightarrow> pixel x y c s = s"
  unfolding pixel_def on_screen_def by (simp only: if_False)

lemma pixel_on_screen:
  assumes "display_inv s" and "on_screen s x y"
  shows "pixel x y c s = fb_store (cell_index s x y) c s"
proof -
  obtain x' y' where t: "transformCoordinates s (x, y) = (x', y')"
    by (cases "transformCoordinates s (x, y)")
  show ?thesis
    using assms(2) transform_on_screen(1-4) [OF assms]
    by (simp add: pixel_def on_screen_def cell_index_def t)
qed

lemma paints_pixel:
  assumes inv: "display_inv s0"
  shows "paints s0 (if on_screen s0 x y then {cell_index s0 x y} else {}) c (pixel x y c)"
proof (cases "on_screen s0 x y")
  case True
  have "paints s0 {cell_index s0 x y} c (pixel x y c)"
    unfolding paints_def
  proof (intro allI impI)
    fix s assume d: "draws s0 s"
    have "pixel x y c s = fb_store (cell_index s0 x y) c s"
      using pixel_on_screen [of s x y c] True inv d
      by (simp add: display_inv_draws on_screen_draws cell_index_draws)
    then show "draws s (pixel x y c s)
        \<and> frame_buffer (pixel x y c s) = (\<lambda>i. if i \<in> {cell_index s0 x y} then c else frame_buffer s i)
        \<and> set (fb_writes (pixel x y c s)) = {cell_index s0 x y} \<union> set (fb_writes s)"
      using paints_fb_store [of s0 "cell_index s0 x y" c] d by (simp add: paints_def)
  qed
  with True show ?thesis by simp
next
  case False
  have "paints s0 {} c (pixel x y c)"
    unfolding paints_def
  proof (intro allI impI)
    fix s assume d: "draws s0 s"
    have "pixel x y c s = s"
      using False d by (simp add: pixel_off_screen on_screen_draws)
    then show "draws s (pixel x y c s)
        \<and> frame_buffer (pixel x y c s) = (\<lambda>i. if i \<in> {} then c else frame_buffer s i)
        \<and> set (fb_writes (pixel x y c s)) = {} \<union> set (fb_writes s)"
      by (simp add: draws_refl)
  qed
  with False show ?thesis by simp
qed

declare fill1.simps [simp del] fill4.simps [simp del]

lemma fill1_effect:
  "case fill1 ptr pixels c s of (p', n', s') \<Rightarrow>
     draws s s'
     \<and> frame_buffer s' = (\<lambda>i. if ptr \<le> i \<and> i < ptr + sint pixels then c else frame_buffer s i)
     \<and> set (fb_writes s') = {ptr..<ptr + sint pixels} \<union> set (fb_writes s)"
proof (induction ptr pixels c s rule: fill1.induct)
  case (1 ptr pixels color s)
  show ?case
  proof (cases "0 < sint pixels")
    case False
    then show ?thesis
      by (subst fill1.simps) (auto simp: draws_refl fun_eq_iff)
  next
    case True
    have r: "sint (i16 (sint pixels - 1)) = sint pixels - 1"
      using True sint_int16_range [of pixels] by (intro sint_i16) simp_all
    obtain p' n' s' where f: "fill1 (ptr + 1) (i16 (sint pixels - 1)) color (fb_store ptr color s) = (p', n', s')"
      by (cases "fill1 (ptr + 1) (i16 (sint pixels - 1)) color (fb_store ptr color s)")
    from "1.IH" [OF True] f r
    have ih: "draws (fb_store ptr color s) s'"
      "frame_buffer s' = (\<lambda>i. if ptr + 1 \<le> i \<and> i < ptr + sint pixels then color else frame_buffer (fb_store ptr color s) i)"
      "set (fb_writes s') = {ptr + 1..<ptr + sint pixels} \<union> set (fb_writes (fb_store ptr color s))"
      by simp_all
    have e: "fill1 ptr pixels color s = (p', n', s')"
      using True f by (subst fill1.simps) simp
    have d: "draws s s'"
      using draws_fb_store ih(1) by (rule draws_trans)
    have fb: "frame_buffer s' = (\<lambda>i. if ptr \<le> i \<and> i < ptr + sint pixels then color else frame_buffer s i)"
      using True by (auto simp: ih(2) fb_store_def fun_eq_iff)
    have w: "set (fb_writes s') = {ptr..<ptr + sint pixels} \<union> set (fb_writes s)"
      using True by (auto simp: ih(3) fb_store_def)
    show ?thesis
      using d fb w by (simp add: e)
  qed
qed

lemma fill4_effect:
  "case fill4 ptr pixels c s of (p', n', s') \<Rightarrow>
     draws s s'
     \<and> ptr \<le> p' \<and> p' + sint n' = ptr + sint pixels
     \<and> (0 \<le> sint pixels \<longrightarrow> 0 \<le> sint n')
     \<and> (sint pixels < 4 \<longrightarrow> p' = ptr)
     \<and> frame_buffer s' = (\<lambda>i. if ptr \<le> i \<and> i < p' then c else frame_buffer s i)
     \<and> set (fb_writes s') = {ptr..<p'} \<union> set (fb_writes s)"
proof (induction ptr pixels c s rule: fill4.induct)
  case (1 ptr pixels color s)
  show ?case
  proof (cases "4 \<le> sint pixels")
    case False
    then show ?thesis
      by (subst fill4.simps) (auto simp: draws_refl fun_eq_iff)
  next
    case True
    let ?s4 = "fb_store (ptr + 3) color (fb_store (ptr + 2) color
               (fb_store (ptr + 1) color (fb_store ptr color s)))"
    have r: "sint (i16 (sint pixels - 4)) = sint pixels - 4"
      using True sint_int16_range [of pixels] by (intro sint_i16) simp_all
    obtain p' n' s' where f: "fill4 (ptr + 4) (i16 (sint pixels - 4)) color ?s4 = (p', n', s')"
      by (cases "fill4 (ptr + 4) (i16 (sint pixels - 4)) color ?s4")
    from "1.IH" [OF True] f r
    have ih: "draws ?s4 s'" "ptr + 4 \<le> p'" "p' + sint n' = ptr + sint pixels" "0 \<le> sint n'"
      "frame_buffer s' = (\<lambda>i. if ptr + 4 \<le> i \<and> i < p' then color else frame_buffer ?s4 i)"
      "set (fb_writes s') = {ptr + 4..<p'} \<union> set (fb_writes ?s4)"
      using True by simp_all
    have e: "fill4 ptr pixels color s = (p', n', s')"
      using True f by (subst fill4.simps) simp
    have d4: "draws s ?s4"
      by (intro draws_trans [OF _ draws_fb_store] draws_fb_store)
    have d: "draws s s'"
      using d4 ih(1) by (rule draws_trans)
    have fb: "frame_buffer s' = (\<lambda>i. if ptr \<le> i \<and> i < p' then color else frame_buffer s i)"
      using ih(2) by (auto simp: ih(5) fb_store_def fun_eq_iff)
    have w: "set (fb_writes s') = {ptr..<p'} \<union> set (fb_writes s)"
      using ih(2) by (auto simp: ih(6) fb_store_def)
    show ?thesis
      using d fb w ih(2,3,4) True by (simp add: e)
  qed
qed

lemma paints_fill_row: "paints s0 {ptr..<ptr + sint w} c (fill_row ptr w c)"
proof (rule paintsI)
  fix s
  obtain p1 n1 s1 where f4: "fill4 ptr w c s = (p1, n1, s1)"
    by (cases "fill4 ptr w c s")
  obtain p2 n2 s2 where f1: "fill1 p1 n1 c s1 = (p2, n2, s2)"
    by (cases "fill1 p1 n1 c s1")
  have r: "fill_row ptr w c s = s2"
    by (simp add: fill_row_def f4 f1)
  from fill4_effect [where ptr = ptr and pixels = w and c = c and s = s] f4
  have a: "draws s s1" "ptr \<le> p1" "p1 + sint n1 = ptr + sint w" "0 \<le> sint w \<longrightarrow> 0 \<le> sint n1"
    "sint w < 4 \<longrightarrow> p1 = ptr"
    "frame_buffer s1 = (\<lambda>i. if ptr \<le> i \<and> i < p1 then c else frame_buffer s i)"
    "set (fb_writes s1) = {ptr..<p1} \<union> set (fb_writes s)"
    by simp_all
  from fill1_effect [where ptr = p1 and pixels = n1 and c = c and s = s1] f1
  have b: "draws s1 s2"
    "frame_buffer s2 = (\<lambda>i. if p1 \<le> i \<and> i < p1 + sint n1 then c else frame_buffer s1 i)"
    "set (fb_writes s2) = {p1..<p1 + sint n1} \<union> set (fb_writes s1)"
    by simp_all
  show "draws s (fill_row ptr w c s)"
    using a(1) b(1) by (simp add: r draws_trans)
  show "set (fb_writes (fill_row ptr w c s)) = {ptr..<ptr + sint w} \<union> set (fb_writes s)"
    using a(2,3,4,5) by (auto simp: r b(3) a(7))
  fix i
  show "frame_buffer (fill_row ptr w c s) i = (if i \<in> {ptr..<ptr + sint w} then c else frame_buffer s i)"
    using a(2,3,4,5) by (auto simp: r b(2) a(6))
qed

lemma paints_eq:
  assumes "paints s0 A c g" and "\<And>s. draws s0 s \<Longrightarrow> f s = g s"
  shows "paints s0 A c f"
  using assms unfolding paints_def by simp

lemma fillRect_clipped:
  "fillRect x y w h color s =
     (if sint x \<ge> sint (display_width s) \<or> sint y \<ge> sint (display_height s)
         \<or> sint w \<le> 0 \<or> sint h \<le> 0
      then s
      else if current_rotation s \<noteq> ROTATION_0
           then fold (\<lambda>row. fold (\<lambda>col. pixel (i16 (sint (clip_start x) + int col))
                                            (i16 (sint (clip_start y) + int row)) color)
                               [0..<nat (sint (clip_extent x w (display_width s)))])
                  [0..<nat (sint (clip_extent y h (display_height s)))] s
           else fold (\<lambda>row. fill_row ((sint (clip_start y) + int row) * LCD_H_RES + sint (clip_start x))
                               (clip_extent x w (display_width s)) color)
                  [0..<nat (sint (clip_extent y h (display_height s)))] s)"
  unfolding fillRect_def clip_start_def clip_extent_def Let_def
  by (cases "sint x < 0"; cases "sint y < 0"; simp only: if_True if_False split_conv)

lemma clip_values:
  assumes "sint x < sint d" and "0 < sint w" and "0 < sint d"
  shows "sint (clip_start x) = max 0 (sint x)"
    and "sint (clip_extent x w d) = min (sint d) (sint x + sint w) - max 0 (sint x)"
proof -
  have rx: "- 32768 \<le> sint x" "sint x \<le> 32767" and rw: "sint w \<le> 32767" and rd: "sint d \<le> 32767"
    using sint_int16_range [of x] sint_int16_range [of w] sint_int16_range [of d] by simp_all
  show s: "sint (clip_start x) = max 0 (sint x)"
    by (simp add: clip_start_def)
  show "sint (clip_extent x w d) = min (sint d) (sint x + sint w) - max 0 (sint x)"
  proof (cases "sint x < 0")
    case True
    have w1: "sint (i16 (sint w + sint x)) = sint w + sint x"
      using True assms rx rw by (intro sint_i16) simp_all
    have d1: "sint (i16 (sint d)) = sint d"
      using assms rd by (intro sint_i16) simp_all
    show ?thesis
      using True assms by (simp add: clip_extent_def clip_start_def Let_def w1 d1)
  next
    case False
    have d1: "sint (i16 (sint d - sint x)) = sint d - sint x"
      using False assms rd by (intro sint_i16) simp_all
    show ?thesis
      using False assms by (simp add: clip_extent_def clip_start_def Let_def d1)
  qed
qed

lemma UN_upt_int: "(\<Union>k\<in>set [0..<nat n]. F (a + int k)) = (\<Union>p\<in>{a..<a + n}. F p)"
proof (intro set_eqI iffI)
  fix v assume "v \<in> (\<Union>k\<in>set [0..<nat n]. F (a + int k))"
  then obtain k where "k < nat n" "v \<in> F (a + int k)" by auto
  then show "v \<in> (\<Union>p\<in>{a..<a + n}. F p)"
    by (intro UN_I [of "a + int k"]) auto
next
  fix v assume "v \<in> (\<Union>p\<in>{a..<a + n}. F p)"
  then obtain p where p: "a \<le> p" "p < a + n" "v \<in> F p" by auto
  then have "nat (p - a) < nat n" "a + int (nat (p - a)) = p" by auto
  with p(3) show "v \<in> (\<Union>k\<in>set [0..<nat n]. F (a + int k))"
    by (intro UN_I [of "nat (p - a)"]) auto
qed

lemma rect_cells_alt:
  assumes "sint x < sint (display_width s)" "sint y < sint (display_height s)"
    "0 < sint w" "0 < sint h" "0 < sint (display_width s)" "0 < sint (display_height s)"
  shows "rect_cells s x y w h =
     (\<Union>py\<in>{sint (clip_start y)..<sint (clip_start y) + sint (clip_extent y h (display_height s))}.
        \<Union>px\<in>{sint (clip_start x)..<sint (clip_start x) + sint (clip_extent x w (display_width s))}.
          {cell_at (current_rotation s) px py})"
  unfolding rect_cells_def clip_values [OF assms(1,3,5)] clip_values [OF assms(2,4,6)]
  by (simp add: set_eq_iff Bex_def) blast

lemma rect_cells_empty:
  assumes "sint x \<ge> sint (display_width s) \<or> sint y \<ge> sint (display_height s)
         \<or> sint w \<le> 0 \<or> sint h \<le> 0"
  shows "rect_cells s x y w h = {}"
  using assms unfolding rect_cells_def by auto

lemma paints_fillRect:
  assumes inv: "display_inv s0"
  shows "paints s0 (rect_cells s0 x y w h) c (fillRect x y w h c)"
proof (cases "sint x \<ge> sint (display_width s0) \<or> sint y \<ge> sint (display_height s0)
         \<or> sint w \<le> 0 \<or> sint h \<le> 0")
  case True
  have "paints s0 {} c (fillRect x y w h c)"
    using True by (intro paints_eq [OF paints_nothing]) (simp add: fillRect_clipped draws_fields)
  then show ?thesis
    by (simp add: rect_cells_empty [OF True])
next
  case False
  let ?r = "current_rotation s0"
  let ?X = "sint (clip_start x)" and ?Y = "sint (clip_start y)"
  let ?w2 = "clip_extent x w (display_width s0)" and ?h2 = "clip_extent y h (display_height s0)"
  have pos: "0 < sint (display_width s0)" "0 < sint (display_height s0)"
    using display_inv_dims [OF inv] by (simp_all split: if_splits)
  have nf: "sint x < sint (display_width s0)" "sint y < sint (display_height s0)" "0 < sint w" "0 < sint h"
    using False by simp_all
  have cx: "?X = max 0 (sint x)" "sint ?w2 = min (sint (display_width s0)) (sint x + sint w) - max 0 (sint x)"
    using clip_values [OF nf(1) nf(3) pos(1)] by simp_all
  have cy: "?Y = max 0 (sint y)" "sint ?h2 = min (sint (display_height s0)) (sint y + sint h) - max 0 (sint y)"
    using clip_values [OF nf(2) nf(4) pos(2)] by simp_all
  have alt: "rect_cells s0 x y w h =
     (\<Union>py\<in>{?Y..<?Y + sint ?h2}. \<Union>px\<in>{?X..<?X + sint ?w2}. {cell_at ?r px py})"
    by (rule rect_cells_alt [OF nf pos])
  show ?thesis
  proof (cases "?r = ROTATION_0")
    case rot: False
    let ?g = "fold (\<lambda>row. fold (\<lambda>col. pixel (i16 (?X + int col)) (i16 (?Y + int row)) c)
                               [0..<nat (sint ?w2)]) [0..<nat (sint ?h2)]"
    have px: "paints s0 {cell_at ?r (?X + int col) (?Y + int row)} c
                (pixel (i16 (?X + int col)) (i16 (?Y + int row)) c)"
      if "col \<in> set [0..<nat (sint ?w2)]" and "row \<in> set [0..<nat (sint ?h2)]" for col row
    proof -
      have "int col < sint ?w2" "int row < sint ?h2"
        using that by auto
      moreover have "?X + sint ?w2 \<le> sint (display_width s0)" "?Y + sint ?h2 \<le> sint (display_height s0)"
        "0 \<le> ?X" "0 \<le> ?Y"
        unfolding cx cy by simp_all
      ultimately have b: "0 \<le> ?X + int col" "?X + int col < sint (display_width s0)"
        "0 \<le> ?Y + int row" "?Y + int row < sint (display_height s0)"
        by linarith+
      have le: "sint (display_width s0) \<le> 800" "sint (display_height s0) \<le> 800"
        using display_inv_dims [OF inv] by (simp_all split: if_splits)
      have sx: "sint (i16 (?X + int col)) = ?X + int col"
        using b le by (intro sint_i16) linarith+
      have sy: "sint (i16 (?Y + int row)) = ?Y + int row"
        using b le by (intro sint_i16) linarith+
      have on: "on_screen s0 (i16 (?X + int col)) (i16 (?Y + int row))"
        using b by (simp add: on_screen_def sx sy)
      show ?thesis
        using paints_pixel [OF inv, of "i16 (?X + int col)" "i16 (?Y + int row)" c] on
          transform_on_screen(5) [OF inv on]
        by (simp add: sx sy)
    qed
    have row: "paints s0 (\<Union>col\<in>set [0..<nat (sint ?w2)]. {cell_at ?r (?X + int col) (?Y + int row)}) c
                 (fold (\<lambda>col. pixel (i16 (?X + int col)) (i16 (?Y + int row)) c) [0..<nat (sint ?w2)])"
      if "row \<in> set [0..<nat (sint ?h2)]" for row
      by (rule paints_fold) (rule px [OF _ that])
    have "paints s0 (\<Union>row\<in>set [0..<nat (sint ?h2)].
                      \<Union>col\<in>set [0..<nat (sint ?w2)]. {cell_at ?r (?X + int col) (?Y + int row)}) c ?g"
      by (rule paints_fold) (rule row)
    then have "paints s0 (rect_cells s0 x y w h) c ?g"
      unfolding alt UN_upt_int [where F = "\<lambda>p. {cell_at ?r p q}" for q]
        UN_upt_int [where F = "\<lambda>q. \<Union>p\<in>{?X..<?X + sint ?w2}. {cell_at ?r p q}"] .
    then show ?thesis
    proof (rule paints_eq)
      fix s assume "draws s0 s"
      then show "fillRect x y w h c s = ?g s"
        using False rot by (simp add: fillRect_clipped draws_fields)
    qed
  next
    case rot: True
    let ?g = "fold (\<lambda>row. fill_row ((?Y + int row) * LCD_H_RES + ?X) ?w2 c) [0..<nat (sint ?h2)]"
    have row: "paints s0 (\<Union>px\<in>{?X..<?X + sint ?w2}. {cell_at ?r px (?Y + int row)}) c
                 (fill_row ((?Y + int row) * LCD_H_RES + ?X) ?w2 c)" for row
    proof -
      have "{(?Y + int row) * LCD_H_RES + ?X..<(?Y + int row) * LCD_H_RES + ?X + sint ?w2}
            = (\<Union>px\<in>{?X..<?X + sint ?w2}. {cell_at ?r px (?Y + int row)})"
      proof (intro set_eqI iffI)
        fix i assume "i \<in> {(?Y + int row) * LCD_H_RES + ?X..<(?Y + int row) * LCD_H_RES + ?X + sint ?w2}"
        then have "i - (?Y + int row) * LCD_H_RES \<in> {?X..<?X + sint ?w2}"
          "i = cell_at ?r (i - (?Y + int row) * LCD_H_RES) (?Y + int row)"
          by (auto simp: rot cell_at_def res_defs)
        then show "i \<in> (\<Union>px\<in>{?X..<?X + sint ?w2}. {cell_at ?r px (?Y + int row)})"
          by blast
      next
        fix i assume "i \<in> (\<Union>px\<in>{?X..<?X + sint ?w2}. {cell_at ?r px (?Y + int row)})"
        then show "i \<in> {(?Y + int row) * LCD_H_RES + ?X..<(?Y + int row) * LCD_H_RES + ?X + sint ?w2}"
          by (auto simp: rot cell_at_def res_defs)
      qed
      then show ?thesis
        using paints_fill_row [of s0 "(?Y + int row) * LCD_H_RES + ?X" ?w2 c] by simp
    qed
    have "paints s0 (\<Union>row\<in>set [0..<nat (sint ?h2)].
                      \<Union>px\<in>{?X..<?X + sint ?w2}. {cell_at ?r px (?Y + int row)}) c ?g"
      by (rule paints_fold) (rule row)
    then have "paints s0 (rect_cells s0 x y w h) c ?g"
      unfolding alt UN_upt_int [where F = "\<lambda>q. \<Union>p\<in>{?X..<?X + sint ?w2}. {cell_at ?r p q}"] .
    then show ?thesis
    proof (rule paints_eq)
      fix s assume "draws s0 s"
      then show "fillRect x y w h c s = ?g s"
        using False rot by (simp add: fillRect_clipped draws_fields)
    qed
  qed
qed


lemma paints_apply:
  assumes "paints s A c f"
  shows "draws s (f s)"
    and "frame_buffer (f s) i = (if i \<in> A then c else frame_buffer s i)"
    and "set (fb_writes (f s)) = A \<union> set (fb_writes s)"
  using assms draws_refl [of s] unfolding paints_def by auto


lemma rect_cells_memI:
  assumes "i = cell_at (current_rotation s) px py"
    and "max 0 (sint x) \<le> px" "px < min (sint (display_width s)) (sint x + sint w)"
    and "max 0 (sint y) \<le> py" "py < min (sint (display_height s)) (sint y + sint h)"
  shows "i \<in> rect_cells s x y w h"
  unfolding rect_cells_def using assms by blast



section \<open>Rotation and the text area (C1)\<close>

lemma setRotation_dims:
  "display_width (setRotation r s) = (case r of ROTATION_0 \<Rightarrow> 800 | ROTATION_180 \<Rightarrow> 800 | _ \<Rightarrow> 480)"
  "display_height (setRotation r s) = (case r of ROTATION_0 \<Rightarrow> 480 | ROTATION_180 \<Rightarrow> 480 | _ \<Rightarrow> 800)"
  "current_rotation (setRotation r s) = r"
  by (cases r; simp add: setRotation_def i16_def LCD_H_RES_def LCD_V_RES_def)+

text \<open>
  C1.  \<open>setRotation\<close> sets the logical width and height to the physical 800 x 480 for
  0 and 180 degrees and to 480 x 800 for 90 and 270 degrees, and sets the width and
  height of the text area to them; but it does not touch the origin of the text area:
  after \<open>setTextArea x y w h\<close> the text area still starts at \<open>(x, y)\<close>, so it is not the
  full logical rectangle unless \<open>x = 0\<close> and \<open>y = 0\<close>.
\<close>

theorem setRotation_keeps_text_area_origin:
  "text_area_x (setRotation r (setTextArea x y w h s)) = x
   \<and> text_area_y (setRotation r (setTextArea x y w h s)) = y
   \<and> text_area_w (setRotation r (setTextArea x y w h s))
       = display_width (setRotation r (setTextArea x y w h s))
   \<and> text_area_h (setRotation r (setTextArea x y w h s))
       = display_height (setRotation r (setTextArea x y w h s))
   \<and> sint (display_width (setRotation r (setTextArea x y w h s)))
       = (if r = ROTATION_0 \<or> r = ROTATION_180 then LCD_H_RES else LCD_V_RES)
   \<and> sint (display_height (setRotation r (setTextArea x y w h s)))
       = (if r = ROTATION_0 \<or> r = ROTATION_180 then LCD_V_RES else LCD_H_RES)"
  by (cases r; simp add: setRotation_def setTextArea_def i16_def LCD_H_RES_def LCD_V_RES_def)

theorem setRotation_keeps_text_area_origin_example:
  "text_area_x (setRotation ROTATION_90 (setTextArea 10 10 100 100 (begin_fg fb_zero))) = 10
   \<and> text_area_y (setRotation ROTATION_90 (setTextArea 10 10 100 100 (begin_fg fb_zero))) = 10
   \<and> sint (text_area_w (setRotation ROTATION_90 (setTextArea 10 10 100 100 (begin_fg fb_zero)))) = 480
   \<and> sint (text_area_h (setRotation ROTATION_90 (setTextArea 10 10 100 100 (begin_fg fb_zero)))) = 800"
  using setRotation_keeps_text_area_origin [of ROTATION_90 10 10 100 100 "begin_fg fb_zero"]
  by (simp add: LCD_H_RES_def LCD_V_RES_def)


section \<open>Cells of the logical screen\<close>

lemma cell_at_inj:
  assumes "cell_at r px py = cell_at r qx qy"
    and "0 \<le> px" "px < (if r = ROTATION_0 \<or> r = ROTATION_180 then 800 else 480)"
    and "0 \<le> py" "py < (if r = ROTATION_0 \<or> r = ROTATION_180 then 480 else 800)"
    and "0 \<le> qx" "qx < (if r = ROTATION_0 \<or> r = ROTATION_180 then 800 else 480)"
    and "0 \<le> qy" "qy < (if r = ROTATION_0 \<or> r = ROTATION_180 then 480 else 800)"
  shows "px = qx \<and> py = qy"
proof (cases r)
  case ROTATION_0
  with assms have "py = qy" by (simp add: cell_at_def; linarith)
  with assms ROTATION_0 show ?thesis by (simp add: cell_at_def)
next
  case ROTATION_90
  with assms have "px = qx" by (simp add: cell_at_def; linarith)
  with assms ROTATION_90 show ?thesis by (simp add: cell_at_def)
next
  case ROTATION_180
  with assms have "py = qy" by (simp add: cell_at_def; linarith)
  with assms ROTATION_180 show ?thesis by (simp add: cell_at_def)
next
  case ROTATION_270
  with assms have "px = qx" by (simp add: cell_at_def; linarith)
  with assms ROTATION_270 show ?thesis by (simp add: cell_at_def)
qed

lemma cell_index_inj:
  assumes inv: "display_inv s" and p: "on_screen s px py" and q: "on_screen s qx qy"
    and e: "cell_index s px py = cell_index s qx qy"
  shows "px = qx \<and> py = qy"
proof -
  have "cell_at (current_rotation s) (sint px) (sint py) = cell_at (current_rotation s) (sint qx) (sint qy)"
    using e transform_on_screen(5) [OF inv p] transform_on_screen(5) [OF inv q] by simp
  then have "sint px = sint qx \<and> sint py = sint qy"
    using p q display_inv_dims [OF inv]
    by (intro cell_at_inj [of "current_rotation s"]) (auto simp: on_screen_def)
  then show ?thesis by (auto intro: signed_word_eqI)
qed

lemma on_screen_cell_in_rect:
  assumes inv: "display_inv s" and p: "on_screen s px py"
  shows "(cell_index s px py \<in> rect_cells s x y w h)
     = (sint x \<le> sint px \<and> sint px < sint x + sint w \<and> sint y \<le> sint py \<and> sint py < sint y + sint h)"
proof
  assume "cell_index s px py \<in> rect_cells s x y w h"
  then obtain qx qy where q: "cell_at (current_rotation s) (sint px) (sint py) = cell_at (current_rotation s) qx qy"
    "max 0 (sint x) \<le> qx" "qx < min (sint (display_width s)) (sint x + sint w)"
    "max 0 (sint y) \<le> qy" "qy < min (sint (display_height s)) (sint y + sint h)"
    unfolding rect_cells_def transform_on_screen(5) [OF inv p] by blast
  have "sint px = qx \<and> sint py = qy"
    using q p display_inv_dims [OF inv]
    by (intro cell_at_inj [of "current_rotation s"]) (auto simp: on_screen_def)
  with q show "sint x \<le> sint px \<and> sint px < sint x + sint w \<and> sint y \<le> sint py \<and> sint py < sint y + sint h"
    by simp
next
  assume a: "sint x \<le> sint px \<and> sint px < sint x + sint w \<and> sint y \<le> sint py \<and> sint py < sint y + sint h"
  show "cell_index s px py \<in> rect_cells s x y w h"
    unfolding transform_on_screen(5) [OF inv p]
    by (rule rect_cells_memI [of _ _ "sint px" "sint py"]) (use a p in \<open>simp_all add: on_screen_def\<close>)
qed

lemma fillRect_on_screen:
  assumes inv: "display_inv s" and p: "on_screen s px py"
  shows "frame_buffer (fillRect x y w h c s) (cell_index s px py)
     = (if sint x \<le> sint px \<and> sint px < sint x + sint w \<and> sint y \<le> sint py \<and> sint py < sint y + sint h
        then c else frame_buffer s (cell_index s px py))"
  using paints_apply(2) [OF paints_fillRect [OF inv], of x y w h c "cell_index s px py"]
  by (simp only: on_screen_cell_in_rect [OF inv p])

lemma draws_fold:
  assumes "\<And>k t. draws t (step k t)"
  shows "draws s (fold step ks s)"
proof (induction ks arbitrary: s)
  case Nil
  show ?case by (simp add: draws_refl)
next
  case (Cons k ks)
  show ?case
    using draws_trans [OF assms [of s k] Cons [of "step k s"]] by simp
qed

lemma draws_pixel: "draws s (pixel x y c s)"
  by (simp add: pixel_def draws_refl draws_fb_store split: prod.splits)

lemma draws_fill_row: "draws s (fill_row ptr w c s)"
  using paints_fill_row [of s ptr w c] by (rule paints_apply(1))

lemma draws_fillRect: "draws s (fillRect x y w h c s)"
  unfolding fillRect_clipped
  by (auto intro!: draws_fold draws_pixel draws_fill_row draws_refl)


section \<open>Clearing the screen (C2)\<close>

lemma div_mod_800:
  assumes "0 \<le> (i::int)" "i < 384000"
  shows "0 \<le> i mod 800" "i mod 800 < 800" "0 \<le> i div 800" "i div 800 < 480"
    "i = (i div 800) * 800 + i mod 800"
  using assms by simp_all


lemma all_cells_covered:
  assumes inv: "display_inv s" and i: "0 \<le> i" "i < LCD_H_RES * LCD_V_RES"
  shows "i \<in> rect_cells s 0 0 (display_width s) (display_height s)"
proof -
  have m: "0 \<le> i mod 800" "i mod 800 < 800" "0 \<le> i div 800" "i div 800 < 480"
    "i = (i div 800) * 800 + i mod 800"
    using div_mod_800 [of i] i by (simp_all add: res_defs)
  note d = display_inv_dims [OF inv]
  show ?thesis
  proof (cases "current_rotation s")
    case ROTATION_0
    show ?thesis
      by (rule rect_cells_memI [of _ _ "i mod 800" "i div 800"])
        (use m d ROTATION_0 in \<open>simp_all add: cell_at_def\<close>)
  next
    case ROTATION_90
    show ?thesis
      by (rule rect_cells_memI [of _ _ "i div 800" "799 - i mod 800"])
        (use m d ROTATION_90 in \<open>simp_all add: cell_at_def\<close>)
  next
    case ROTATION_180
    show ?thesis
      by (rule rect_cells_memI [of _ _ "799 - i mod 800" "479 - i div 800"])
        (use m d ROTATION_180 in \<open>simp_all add: cell_at_def\<close>)
  next
    case ROTATION_270
    show ?thesis
      by (rule rect_cells_memI [of _ _ "479 - i div 800" "i mod 800"])
        (use m d ROTATION_270 in \<open>simp_all add: cell_at_def\<close>)
  qed
qed

text \<open>
  C2.  In every rotation state, \<open>clear C\<close> leaves every one of the
  \<open>LCD_H_RES * LCD_V_RES\<close> cells of the framebuffer equal to \<open>C\<close>: after \<open>setRotation r\<close>
  from any state, after \<open>begin\<close>, and in any state whose logical size matches its rotation
  (\<open>display_inv\<close>, which \<open>begin\<close> and \<open>setRotation\<close> establish and no other operation
  changes).
\<close>

theorem clear_fills_every_cell:
  assumes "0 \<le> i" and "i < LCD_H_RES * LCD_V_RES"
  shows "frame_buffer (clear C (setRotation r s)) i = C
    \<and> frame_buffer (clear C (begin_fg fb)) i = C
    \<and> (display_inv s \<longrightarrow> frame_buffer (clear C s) i = C)"
proof -
  have *: "frame_buffer (clear C t) i = C" if "display_inv t" for t
    using paints_apply(2) [OF paints_fillRect [OF that], of 0 0 "display_width t" "display_height t" C i]
      all_cells_covered [OF that assms]
    by (simp add: clear_def)
  show ?thesis
    using * [OF display_inv_setRotation] * [OF display_inv_begin] * by blast
qed

theorem clear_fills_every_cell_witness:
  "(0::int) \<le> 12345 \<and> 12345 < LCD_H_RES * LCD_V_RES
   \<and> frame_buffer (clear 0xF800 (setRotation ROTATION_90 (begin_fg fb_zero))) 12345 = 0xF800
   \<and> frame_buffer (clear 0xF800 (begin_fg fb_zero)) 12345 = 0xF800
   \<and> display_inv (setRotation ROTATION_270 (begin_fg fb_zero))
   \<and> frame_buffer (clear 0xF800 (setRotation ROTATION_270 (begin_fg fb_zero))) 12345 = 0xF800"
proof -
  have h: "(0::int) \<le> 12345" "12345 < LCD_H_RES * LCD_V_RES"
    by (simp_all add: res_defs)
  have d: "display_inv (setRotation ROTATION_270 (begin_fg fb_zero))"
    by (rule display_inv_setRotation)
  show ?thesis
    using h d clear_fills_every_cell [OF h, of "0xF800" ROTATION_90 "begin_fg fb_zero" fb_zero]
      clear_fills_every_cell [OF h, of "0xF800" ROTATION_90 "setRotation ROTATION_270 (begin_fg fb_zero)" fb_zero]
    by blast
qed



section \<open>Clipping a rectangle at the origin (C5)\<close>

lemma rect_cells_negative_origin:
  assumes "current_rotation s = ROTATION_0" "display_width s = i16 LCD_H_RES" "display_height s = i16 LCD_V_RES"
  shows "rect_cells s (- 5) (- 5) 20 20 = {py * LCD_H_RES + px | px py. 0 \<le> px \<and> px < 15 \<and> 0 \<le> py \<and> py < 15}"
  using assms by (simp add: rect_cells_def cell_at_def res_defs i16_def)

text \<open>
  C5.  At rotation 0 on the 800 x 480 panel, \<open>fillRect (-5) (-5) 20 20 C\<close> sets the cell
  of every point \<open>(px, py)\<close> with \<open>px < 15\<close> and \<open>py < 15\<close> to \<open>C\<close> and leaves every other
  cell of the framebuffer as it was; its stores are exactly those 15 x 15 cells, and no
  other member of the state changes.
\<close>

theorem fillRect_negative_origin:
  assumes "current_rotation s = ROTATION_0"
    and "display_width s = i16 LCD_H_RES" and "display_height s = i16 LCD_V_RES"
  shows "(\<forall>px py. 0 \<le> px \<and> px < LCD_H_RES \<and> 0 \<le> py \<and> py < LCD_V_RES \<longrightarrow>
            frame_buffer (fillRect (- 5) (- 5) 20 20 C s) (py * LCD_H_RES + px)
              = (if px < 15 \<and> py < 15 then C else frame_buffer s (py * LCD_H_RES + px)))
     \<and> set (fb_writes (fillRect (- 5) (- 5) 20 20 C s))
         = {py * LCD_H_RES + px | px py. 0 \<le> px \<and> px < 15 \<and> 0 \<le> py \<and> py < 15} \<union> set (fb_writes s)
     \<and> draws s (fillRect (- 5) (- 5) 20 20 C s)"
proof -
  have inv: "display_inv s"
    using assms by (simp add: display_inv_def)
  note p = paints_apply [OF paints_fillRect [OF inv, of "- 5" "- 5" 20 20 C]]
  note rc = rect_cells_negative_origin [OF assms]
  have cellwise: "frame_buffer (fillRect (- 5) (- 5) 20 20 C s) (py * LCD_H_RES + px)
              = (if px < 15 \<and> py < 15 then C else frame_buffer s (py * LCD_H_RES + px))"
    if b: "0 \<le> px" "px < LCD_H_RES" "0 \<le> py" "py < LCD_V_RES" for px py
  proof -
    have "(py * LCD_H_RES + px \<in> {py * LCD_H_RES + px | px py. 0 \<le> px \<and> px < 15 \<and> 0 \<le> py \<and> py < 15})
          = (px < 15 \<and> py < 15)"
    proof
      assume "py * LCD_H_RES + px \<in> {py * LCD_H_RES + px | px py. 0 \<le> px \<and> px < 15 \<and> 0 \<le> py \<and> py < 15}"
      then obtain qx qy where q: "py * LCD_H_RES + px = qy * LCD_H_RES + qx"
        "0 \<le> qx" "qx < 15" "0 \<le> qy" "qy < 15"
        by blast
      with b have "qy = py"
        unfolding res_defs by linarith
      with q have "qy = py \<and> qx = px"
        by simp
      with q show "px < 15 \<and> py < 15" by simp
    next
      assume "px < 15 \<and> py < 15"
      with b show "py * LCD_H_RES + px \<in> {py * LCD_H_RES + px | px py. 0 \<le> px \<and> px < 15 \<and> 0 \<le> py \<and> py < 15}"
        by blast
    qed
    then show ?thesis
      using p(2) [of "py * LCD_H_RES + px"] by (simp only: rc)
  qed
  show ?thesis
    using cellwise p(1) p(3) by (simp add: rc)
qed

theorem fillRect_negative_origin_witness:
  "current_rotation (begin_fg fb_zero) = ROTATION_0
   \<and> display_width (begin_fg fb_zero) = i16 LCD_H_RES \<and> display_height (begin_fg fb_zero) = i16 LCD_V_RES
   \<and> (0::int) \<le> 14 \<and> 14 < LCD_H_RES \<and> (0::int) \<le> 15 \<and> 15 < LCD_V_RES
   \<and> frame_buffer (fillRect (- 5) (- 5) 20 20 0xF800 (begin_fg fb_zero)) (14 * LCD_H_RES + 14) = 0xF800
   \<and> frame_buffer (fillRect (- 5) (- 5) 20 20 0xF800 (begin_fg fb_zero)) (15 * LCD_H_RES + 14) = 0"
proof -
  have h: "current_rotation (begin_fg fb_zero) = ROTATION_0"
    "display_width (begin_fg fb_zero) = i16 LCD_H_RES" "display_height (begin_fg fb_zero) = i16 LCD_V_RES"
    by (simp_all add: begin_fg_def)
  have b: "(0::int) \<le> 14 \<and> 14 < LCD_H_RES \<and> (0::int) \<le> 14 \<and> 14 < LCD_V_RES"
    "(0::int) \<le> 14 \<and> 14 < LCD_H_RES \<and> (0::int) \<le> 15 \<and> 15 < LCD_V_RES"
    by (simp_all add: res_defs)
  have z: "frame_buffer (begin_fg fb_zero) (15 * LCD_H_RES + 14) = 0"
    by (simp add: begin_fg_def fb_zero_def)
  from fillRect_negative_origin [OF h, of "0xF800"]
  have c: "\<forall>px py. 0 \<le> px \<and> px < LCD_H_RES \<and> 0 \<le> py \<and> py < LCD_V_RES \<longrightarrow>
            frame_buffer (fillRect (- 5) (- 5) 20 20 0xF800 (begin_fg fb_zero)) (py * LCD_H_RES + px)
              = (if px < 15 \<and> py < 15 then 0xF800 else frame_buffer (begin_fg fb_zero) (py * LCD_H_RES + px))"
    by blast
  show ?thesis
    using h b z c [rule_format, OF b(1)] c [rule_format, OF b(2)] by simp
qed


section \<open>Invalid parameters (C6)\<close>

text \<open>
  C6.  Invalid parameters make the operation a no-op; no operation has an error result.
  \<open>fillRect\<close> with a width or height that is not positive, \<open>circle\<close> and \<open>fillCircle\<close> with a
  radius that is not positive, and \<open>drawChar\<close> with a byte outside 0..127 return the state
  they were given (framebuffer, store record and all settings); \<open>setTextSize\<close> with a size
  outside 1..10 and \<open>setLineSpacing\<close> with a spacing outside 0..20 return the state
  unchanged, so the parameter keeps its previous value.
\<close>

theorem invalid_parameters_are_no_ops:
  "(sint w \<le> 0 \<or> sint h \<le> 0 \<longrightarrow> fillRect x y w h C s = s)
   \<and> (sint radius \<le> 0 \<longrightarrow> circle x0 y0 radius C s = Some s \<and> fillCircle x0 y0 radius C s = s)
   \<and> (schar c < 0 \<or> schar c > 127 \<longrightarrow> drawChar x y c fg bg sz s = s)
   \<and> (unat n < 1 \<or> unat n > 10 \<longrightarrow> setTextSize n s = s)
   \<and> (sint spacing < 0 \<or> sint spacing > 20 \<longrightarrow> setLineSpacing spacing s = s)"
proof (intro conjI impI)
  assume "sint w \<le> 0 \<or> sint h \<le> 0"
  then have "sint x \<ge> sint (display_width s) \<or> sint y \<ge> sint (display_height s)
         \<or> sint w \<le> 0 \<or> sint h \<le> 0"
    by blast
  then show "fillRect x y w h C s = s"
    unfolding fillRect_def by (simp only: if_True)
next
  assume "sint radius \<le> 0"
  then show "circle x0 y0 radius C s = Some s" "fillCircle x0 y0 radius C s = s"
    by (simp_all add: circle_def fillCircle_def)
next
  assume "schar c < 0 \<or> schar c > 127"
  then show "drawChar x y c fg bg sz s = s"
    unfolding drawChar_def by (simp only: if_True)
next
  assume "unat n < 1 \<or> unat n > 10"
  then have "\<not> (unat n \<ge> 1 \<and> unat n \<le> 10)"
    by linarith
  then show "setTextSize n s = s"
    unfolding setTextSize_def by (simp only: if_False)
next
  assume "sint spacing < 0 \<or> sint spacing > 20"
  then have "\<not> (sint spacing \<ge> 0 \<and> sint spacing \<le> 20)"
    by linarith
  then show "setLineSpacing spacing s = s"
    unfolding setLineSpacing_def by (simp only: if_False)
qed

theorem invalid_parameters_are_no_ops_witness:
  "sint (0 :: int16) \<le> 0 \<and> fillRect 3 4 0 5 0xF800 (begin_fg fb_zero) = begin_fg fb_zero
   \<and> sint (- 7 :: int16) \<le> 0 \<and> fillRect 3 4 5 (- 7) 0xF800 (begin_fg fb_zero) = begin_fg fb_zero
   \<and> circle 100 100 0 0xF800 (begin_fg fb_zero) = Some (begin_fg fb_zero)
   \<and> fillCircle 100 100 (- 7) 0xF800 (begin_fg fb_zero) = begin_fg fb_zero
   \<and> schar (CHR 0xC8) < 0
   \<and> drawChar 3 4 (CHR 0xC8) 0xFFFF 0 1 (begin_fg fb_zero) = begin_fg fb_zero
   \<and> unat (11 :: uint8) > 10 \<and> setTextSize 11 (begin_fg fb_zero) = begin_fg fb_zero
   \<and> unat (0 :: uint8) < 1 \<and> setTextSize 0 (begin_fg fb_zero) = begin_fg fb_zero
   \<and> sint (21 :: int16) > 20 \<and> setLineSpacing 21 (begin_fg fb_zero) = begin_fg fb_zero
   \<and> sint (- 1 :: int16) < 0 \<and> setLineSpacing (- 1) (begin_fg fb_zero) = begin_fg fb_zero"
proof -
  have h: "sint (0 :: int16) \<le> 0" "sint (- 7 :: int16) \<le> 0" "schar (CHR 0xC8) < 0"
    "unat (11 :: uint8) > 10" "unat (0 :: uint8) < 1" "sint (21 :: int16) > 20" "sint (- 1 :: int16) < 0"
    by (simp_all add: schar_def)
  show ?thesis
    using h
      invalid_parameters_are_no_ops [where w = 0 and h = 5 and x = 3 and y = 4 and C = "0xF800"
        and s = "begin_fg fb_zero" and radius = 0 and ?x0.0 = 100 and ?y0.0 = 100 and c = "CHR 0xC8"
        and fg = "0xFFFF" and bg = 0 and sz = 1 and n = 11 and spacing = 21]
      invalid_parameters_are_no_ops [where w = 5 and h = "- 7" and x = 3 and y = 4 and C = "0xF800"
        and s = "begin_fg fb_zero" and radius = "- 7" and ?x0.0 = 100 and ?y0.0 = 100 and c = "CHR 0xC8"
        and fg = "0xFFFF" and bg = 0 and sz = 1 and n = 0 and spacing = "- 1"]
    by blast
qed


section \<open>Composing the 90 and 270 degree transforms (C7)\<close>

lemma setRotation_rotation: "current_rotation (setRotation r s) = r"
  by (cases r) (simp_all add: setRotation_def)

lemma transform_90: "transformCoordinates (setRotation ROTATION_90 s) (x, y) = (799 - y, x)"
  by (simp add: transformCoordinates_def setRotation_rotation i16_def res_defs)

lemma transform_270: "transformCoordinates (setRotation ROTATION_270 s) (x, y) = (y, 479 - x)"
  by (simp add: transformCoordinates_def setRotation_rotation i16_def res_defs)

text \<open>
  C7.  The 90 degree transform followed by the 270 degree transform maps \<open>(x, y)\<close> to
  \<open>(x, y + LCD_V_RES - LCD_H_RES)\<close>, computed in \<^verbatim>\<open>int16_t\<close>; this is never the point
  \<open>(x, y)\<close> itself.  Wherever \<open>y + LCD_V_RES - LCD_H_RES\<close> is an \<^verbatim>\<open>int16_t\<close> value, and so
  for every point of the logical screen at 90 degrees, the second coordinate is exactly
  \<open>y + LCD_V_RES - LCD_H_RES = y - 320\<close>.
\<close>

theorem rotate_90_then_270_shifts:
  "transformCoordinates (setRotation ROTATION_270 s)
      (transformCoordinates (setRotation ROTATION_90 s) (x, y))
     = (x, i16 (sint y + LCD_V_RES - LCD_H_RES))
   \<and> transformCoordinates (setRotation ROTATION_270 s)
      (transformCoordinates (setRotation ROTATION_90 s) (x, y)) \<noteq> (x, y)
   \<and> (- 32768 \<le> sint y + LCD_V_RES - LCD_H_RES \<longrightarrow>
        sint (snd (transformCoordinates (setRotation ROTATION_270 s)
                     (transformCoordinates (setRotation ROTATION_90 s) (x, y))))
          = sint y + LCD_V_RES - LCD_H_RES)
   \<and> (on_screen (setRotation ROTATION_90 s) x y \<longrightarrow>
        sint (snd (transformCoordinates (setRotation ROTATION_270 s)
                     (transformCoordinates (setRotation ROTATION_90 s) (x, y))))
          = sint y + LCD_V_RES - LCD_H_RES)"
proof -
  have e: "transformCoordinates (setRotation ROTATION_270 s)
      (transformCoordinates (setRotation ROTATION_90 s) (x, y)) = (x, i16 (sint y + LCD_V_RES - LCD_H_RES))"
    by (simp add: transform_90 transform_270 i16_def res_defs)
  have ne: "i16 (sint y + LCD_V_RES - LCD_H_RES) \<noteq> y"
  proof
    assume "i16 (sint y + LCD_V_RES - LCD_H_RES) = y"
    then have "y - 320 = y"
      by (simp add: i16_def res_defs)
    then have "(320 :: int16) = 0"
      by (simp add: algebra_simps)
    then show False by simp
  qed
  have r: "sint (i16 (sint y + LCD_V_RES - LCD_H_RES)) = sint y + LCD_V_RES - LCD_H_RES"
    if "- 32768 \<le> sint y + LCD_V_RES - LCD_H_RES"
    using that sint_int16_range [of y] by (intro sint_i16) (simp_all add: res_defs)
  have o: "- 32768 \<le> sint y + LCD_V_RES - LCD_H_RES" if "on_screen (setRotation ROTATION_90 s) x y"
    using that by (simp add: on_screen_def res_defs)
  show ?thesis
    using ne r o by (simp add: e)
qed

theorem rotate_90_then_270_shifts_witness:
  "transformCoordinates (setRotation ROTATION_270 (begin_fg fb_zero))
      (transformCoordinates (setRotation ROTATION_90 (begin_fg fb_zero)) (10, 400)) = (10, 80)
   \<and> on_screen (setRotation ROTATION_90 (begin_fg fb_zero)) 10 400
   \<and> sint (snd (transformCoordinates (setRotation ROTATION_270 (begin_fg fb_zero))
                     (transformCoordinates (setRotation ROTATION_90 (begin_fg fb_zero)) (10, 400))))
          = 400 + LCD_V_RES - LCD_H_RES"
proof -
  have o: "on_screen (setRotation ROTATION_90 (begin_fg fb_zero)) 10 400"
    by (simp add: on_screen_def setRotation_def i16_def res_defs)
  show ?thesis
    using o rotate_90_then_270_shifts [of "begin_fg fb_zero" 10 400]
    by (simp add: i16_def res_defs)
qed



section \<open>Bytes outside ASCII in the print path (C10)\<close>

lemma of_char_int_range: "0 \<le> (of_char c :: int) \<and> (of_char c :: int) < 256"
proof -
  have "(of_char c :: int) mod 256 = of_char c"
    by simp
  then show ?thesis
    by (metis pos_mod_bound pos_mod_sign zero_less_numeral)
qed

text \<open>
  C10.  A byte outside 0..127 (negative as a signed char; it is then neither NUL, newline
  nor carriage return) is skipped by both print functions: \<open>print_str\<close> continues with the
  rest of the string in the same state, and \<open>print_char\<close> returns the state unchanged, so
  nothing is drawn and the cursor does not move.  A string of such bytes leaves the state
  unchanged.
\<close>

theorem print_skips_bytes_above_127:
  "(schar c < 0 \<or> schar c > 127 \<longrightarrow>
      print_str (c # str) s = print_str str s \<and> print_char c s = s)
   \<and> ((\<forall>b \<in> set bs. schar b < 0 \<or> schar b > 127) \<longrightarrow> print_str bs s = s)"
proof -
  have one: "print_str (b # str) t = print_str str t \<and> print_char b t = t"
    if "schar b < 0 \<or> schar b > 127" for b str t
  proof -
    have "(of_char b :: int) \<ge> 128"
      using that of_char_int_range [of b] by (auto simp: schar_def split: if_splits)
    then have "b \<noteq> NUL" "b \<noteq> CHR 0x0A" "b \<noteq> CHR 0x0D"
      by (auto simp: NUL_def)
    moreover have "(schar b \<ge> 0 \<and> schar b \<le> 127) = False"
      using that by auto
    ultimately show ?thesis
      unfolding print_char_def print_str.simps by (simp only: if_False simp_thms)
  qed
  have many: "(\<forall>b \<in> set bs. schar b < 0 \<or> schar b > 127) \<Longrightarrow> print_str bs s = s"
  proof (induction bs)
    case Nil
    show ?case by simp
  next
    case (Cons b bs)
    then show ?case
      using one [of b bs s] by simp
  qed
  show ?thesis
    using one many by blast
qed

theorem print_skips_bytes_above_127_witness:
  "schar (CHR 0xC8) < 0
   \<and> print_str [CHR 0xC8, CHR ''A''] (begin_fg fb_zero) = print_str [CHR ''A''] (begin_fg fb_zero)
   \<and> print_char (CHR 0xC8) (begin_fg fb_zero) = begin_fg fb_zero
   \<and> print_str [CHR 0xC8, CHR 0xFF, CHR 0x80] (begin_fg fb_zero) = begin_fg fb_zero"
proof -
  have h: "schar (CHR 0xC8) < 0" "\<forall>b \<in> set [CHR 0xC8, CHR 0xFF, CHR 0x80]. schar b < 0 \<or> schar b > 127"
    by (simp_all add: schar_def)
  show ?thesis
    using h print_skips_bytes_above_127 [of "CHR 0xC8" "[CHR ''A'']" "begin_fg fb_zero" "[CHR 0xC8, CHR 0xFF, CHR 0x80]"]
    by blast
qed


section \<open>Newline in the print path (C4)\<close>

lemma newLine_unfold:
  "newLine s =
     (if sint (next_line_y s) + int (unat (text_size s)) * 8 > sint (text_area_y s) + sint (text_area_h s)
      then clearTextArea (s\<lparr>cursor_x := text_area_x s, cursor_y := next_line_y s\<rparr>)
      else s\<lparr>cursor_x := text_area_x s, cursor_y := next_line_y s\<rparr>)"
  by (simp add: newLine_def Let_def next_line_y_def line_advance_def)

lemma clearTextArea_after_cursor:
  fixes s :: state
  defines "t \<equiv> s\<lparr>cursor_x := text_area_x s, cursor_y := next_line_y s\<rparr>"
  shows "cursor_x (clearTextArea t) = text_area_x s"
    and "cursor_y (clearTextArea t) = text_area_y s"
    and "display_inv s \<Longrightarrow> on_screen s px py \<Longrightarrow>
         frame_buffer (clearTextArea t) (cell_index s px py)
           = (if in_text_area s px py then text_bg_color s else frame_buffer s (cell_index s px py))"
proof -
  let ?f = "fillRect (text_area_x t) (text_area_y t) (text_area_w t) (text_area_h t) (text_bg_color t) t"
  have d: "draws t ?f"
    by (rule draws_fillRect)
  show "cursor_x (clearTextArea t) = text_area_x s" "cursor_y (clearTextArea t) = text_area_y s"
    by (simp_all add: clearTextArea_def Let_def draws_fields [OF d]) (simp_all add: t_def)
  assume inv: "display_inv s" and on: "on_screen s px py"
  have inv': "display_inv t" and on': "on_screen t px py" and ci: "cell_index t px py = cell_index s px py"
    using inv on by (simp_all add: t_def display_inv_def on_screen_def cell_index_def transformCoordinates_def)
  have tf: "text_area_x t = text_area_x s" "text_area_y t = text_area_y s"
    "text_area_w t = text_area_w s" "text_area_h t = text_area_h s"
    "text_bg_color t = text_bg_color s" "frame_buffer t = frame_buffer s"
    by (simp_all add: t_def)
  have "frame_buffer (clearTextArea t) (cell_index s px py) = frame_buffer ?f (cell_index t px py)"
    by (simp add: clearTextArea_def Let_def ci)
  also have "\<dots> = (if sint (text_area_x t) \<le> sint px \<and> sint px < sint (text_area_x t) + sint (text_area_w t)
                          \<and> sint (text_area_y t) \<le> sint py \<and> sint py < sint (text_area_y t) + sint (text_area_h t)
                       then text_bg_color t else frame_buffer t (cell_index t px py))"
    by (rule fillRect_on_screen [OF inv' on'])
  also have "\<dots> = (if in_text_area s px py then text_bg_color s else frame_buffer s (cell_index s px py))"
    by (simp add: ci tf in_text_area_def)
  finally show "frame_buffer (clearTextArea t) (cell_index s px py)
           = (if in_text_area s px py then text_bg_color s else frame_buffer s (cell_index s px py))" .
qed

lemma sint_i16_wrap: "sint (i16 v) = (v + 32768) mod 65536 - 32768"
  by (simp add: i16_def sint_sbintrunc' signed_take_bit_eq_take_bit_shift take_bit_eq_mod)

lemma next_line_y_wraps:
  "sint (next_line_y s) = (sint (cursor_y s) + line_advance s + 32768) mod 65536 - 32768"
  by (simp add: next_line_y_def sint_i16_wrap)

text \<open>
  C4.  The spec says that a newline in the print path advances the cursor y by
  \<open>text_size * 8 + line_spacing\<close> and that the text area is cleared whenever the new y
  exceeds the bottom edge of the text area.  The source clears earlier: it tests the
  glyph row that starts at the new y, \<^verbatim>\<open>cursor_y + text_size * 8 > text_area_y + text_area_h\<close>.

  In the print path a newline byte is \<open>newLine\<close>.  It sets the cursor x to the left edge
  of the text area.  The new y is \<open>next_line_y\<close>, the sum of the cursor y and
  \<open>text_size * 8 + line_spacing\<close> stored in an \<^verbatim>\<open>int16_t\<close>: the sum itself where that is
  an \<^verbatim>\<open>int16_t\<close> value, and the sum wrapped around in general.

  \<^item> If the new y plus \<open>text_size * 8\<close> is at most the bottom edge, the cursor y is the
    new y and nothing else changes.
  \<^item> If the new y plus \<open>text_size * 8\<close> exceeds the bottom edge, and so whenever the new
    y itself does, the cursor is reset to the top-left corner of the text area, every
    pixel of the logical screen inside the text area has the background colour and every
    other pixel its previous value: the text area is overwritten, nothing is scrolled.
\<close>

theorem newline_advances_or_clears:
  "print_str [CHR 0x0A] s = newLine s \<and> print_char (CHR 0x0A) s = newLine s
   \<and> cursor_x (newLine s) = text_area_x s
   \<and> sint (next_line_y s)
        = (sint (cursor_y s) + (int (unat (text_size s)) * 8 + sint (line_spacing s)) + 32768) mod 65536 - 32768
   \<and> (- 32768 \<le> sint (cursor_y s) + line_advance s \<and> sint (cursor_y s) + line_advance s \<le> 32767
        \<longrightarrow> sint (next_line_y s) = sint (cursor_y s) + (int (unat (text_size s)) * 8 + sint (line_spacing s)))
   \<and> (sint (next_line_y s) + int (unat (text_size s)) * 8 \<le> sint (text_area_y s) + sint (text_area_h s)
        \<longrightarrow> newLine s = s\<lparr>cursor_x := text_area_x s, cursor_y := next_line_y s\<rparr>)
   \<and> (sint (next_line_y s) + int (unat (text_size s)) * 8 > sint (text_area_y s) + sint (text_area_h s)
        \<longrightarrow> newLine s = clearTextArea (s\<lparr>cursor_x := text_area_x s, cursor_y := next_line_y s\<rparr>)
            \<and> cursor_x (newLine s) = text_area_x s \<and> cursor_y (newLine s) = text_area_y s
            \<and> (display_inv s \<longrightarrow>
                 (\<forall>px py. on_screen s px py \<longrightarrow>
                    frame_buffer (newLine s) (cell_index s px py)
                      = (if in_text_area s px py then text_bg_color s
                         else frame_buffer s (cell_index s px py)))))
   \<and> (sint (next_line_y s) > sint (text_area_y s) + sint (text_area_h s)
        \<longrightarrow> sint (next_line_y s) + int (unat (text_size s)) * 8 > sint (text_area_y s) + sint (text_area_h s))"
proof -
  let ?t = "s\<lparr>cursor_x := text_area_x s, cursor_y := next_line_y s\<rparr>"
  have p: "print_str [CHR 0x0A] s = newLine s" "print_char (CHR 0x0A) s = newLine s"
    by (simp_all add: print_char_def NUL_def)
  have x: "cursor_x (newLine s) = text_area_x s"
    using clearTextArea_after_cursor(1) [of s] by (simp add: newLine_unfold)
  have w: "sint (next_line_y s)
        = (sint (cursor_y s) + (int (unat (text_size s)) * 8 + sint (line_spacing s)) + 32768) mod 65536 - 32768"
    using next_line_y_wraps [of s] by (simp add: line_advance_def)
  have y: "sint (next_line_y s) = sint (cursor_y s) + (int (unat (text_size s)) * 8 + sint (line_spacing s))"
    if "- 32768 \<le> sint (cursor_y s) + line_advance s" "sint (cursor_y s) + line_advance s \<le> 32767"
    using sint_i16 [OF that] by (simp add: next_line_y_def line_advance_def)
  have stay: "newLine s = ?t"
    if "sint (next_line_y s) + int (unat (text_size s)) * 8 \<le> sint (text_area_y s) + sint (text_area_h s)"
    using that by (simp add: newLine_unfold)
  have over: "newLine s = clearTextArea ?t"
    if "sint (next_line_y s) + int (unat (text_size s)) * 8 > sint (text_area_y s) + sint (text_area_h s)"
    using that by (simp add: newLine_unfold)
  have "0 \<le> int (unat (text_size s)) * 8"
    by simp
  then have more: "sint (next_line_y s) + int (unat (text_size s)) * 8 > sint (text_area_y s) + sint (text_area_h s)"
    if "sint (next_line_y s) > sint (text_area_y s) + sint (text_area_h s)"
    using that by linarith
  have c5: "- 32768 \<le> sint (cursor_y s) + line_advance s \<and> sint (cursor_y s) + line_advance s \<le> 32767
        \<longrightarrow> sint (next_line_y s) = sint (cursor_y s) + (int (unat (text_size s)) * 8 + sint (line_spacing s))"
    using y by (intro impI, elim conjE)
  have c6: "sint (next_line_y s) + int (unat (text_size s)) * 8 \<le> sint (text_area_y s) + sint (text_area_h s)
        \<longrightarrow> newLine s = ?t"
    using stay by (intro impI)
  have c7: "sint (next_line_y s) + int (unat (text_size s)) * 8 > sint (text_area_y s) + sint (text_area_h s)
        \<longrightarrow> newLine s = clearTextArea ?t
            \<and> cursor_x (newLine s) = text_area_x s \<and> cursor_y (newLine s) = text_area_y s
            \<and> (display_inv s \<longrightarrow>
                 (\<forall>px py. on_screen s px py \<longrightarrow>
                    frame_buffer (newLine s) (cell_index s px py)
                      = (if in_text_area s px py then text_bg_color s
                         else frame_buffer s (cell_index s px py))))"
  proof (intro impI conjI allI)
    assume a: "sint (next_line_y s) + int (unat (text_size s)) * 8 > sint (text_area_y s) + sint (text_area_h s)"
    show "newLine s = clearTextArea ?t"
      by (rule over [OF a])
    show "cursor_x (newLine s) = text_area_x s"
      by (rule x)
    show "cursor_y (newLine s) = text_area_y s"
      unfolding over [OF a] by (rule clearTextArea_after_cursor(2))
    fix px py
    assume "display_inv s" "on_screen s px py"
    then show "frame_buffer (newLine s) (cell_index s px py)
                 = (if in_text_area s px py then text_bg_color s else frame_buffer s (cell_index s px py))"
      unfolding over [OF a] by (rule clearTextArea_after_cursor(3))
  qed
  have c8: "sint (next_line_y s) > sint (text_area_y s) + sint (text_area_h s)
        \<longrightarrow> sint (next_line_y s) + int (unat (text_size s)) * 8 > sint (text_area_y s) + sint (text_area_h s)"
    using more by (intro impI)
  show ?thesis
    using p x w c5 c6 c7 c8 by (intro conjI)
qed

theorem newline_advances_or_clears_witness:
  "sint (next_line_y (begin_fg fb_white)) + int (unat (text_size (begin_fg fb_white))) * 8
        \<le> sint (text_area_y (begin_fg fb_white)) + sint (text_area_h (begin_fg fb_white))
   \<and> newLine (begin_fg fb_white)
        = (begin_fg fb_white)\<lparr>cursor_x := text_area_x (begin_fg fb_white), cursor_y := next_line_y (begin_fg fb_white)\<rparr>
   \<and> sint (next_line_y (begin_fg fb_white)) = 10
   \<and> sint (next_line_y (setCursor 30 105 (setTextArea 10 10 100 100 (begin_fg fb_white)))) = 115
   \<and> sint (text_area_y (setCursor 30 105 (setTextArea 10 10 100 100 (begin_fg fb_white))))
        + sint (text_area_h (setCursor 30 105 (setTextArea 10 10 100 100 (begin_fg fb_white)))) = 110
   \<and> cursor_x (newLine (setCursor 30 105 (setTextArea 10 10 100 100 (begin_fg fb_white)))) = 10
   \<and> cursor_y (newLine (setCursor 30 105 (setTextArea 10 10 100 100 (begin_fg fb_white)))) = 10
   \<and> frame_buffer (setCursor 30 105 (setTextArea 10 10 100 100 (begin_fg fb_white))) (20 * 800 + 20) = 0xFFFF
   \<and> frame_buffer (newLine (setCursor 30 105 (setTextArea 10 10 100 100 (begin_fg fb_white)))) (20 * 800 + 20) = 0
   \<and> frame_buffer (newLine (setCursor 30 105 (setTextArea 10 10 100 100 (begin_fg fb_white)))) (7 * 800 + 5) = 0xFFFF
   \<and> sint (next_line_y (setLineSpacing 0 (setCursor 0 32760 (begin_fg fb_white)))) = - 32768"
proof -
  let ?a = "begin_fg fb_white" and ?b = "setCursor 30 105 (setTextArea 10 10 100 100 (begin_fg fb_white))"
  let ?c = "setLineSpacing 0 (setCursor 0 32760 (begin_fg fb_white))"
  have a: "sint (next_line_y ?a) + int (unat (text_size ?a)) * 8 \<le> sint (text_area_y ?a) + sint (text_area_h ?a)"
    "sint (next_line_y ?a) = 10"
    by (simp_all add: next_line_y_def line_advance_def begin_fg_def i16_def res_defs)
  have over: "sint (next_line_y ?b) + int (unat (text_size ?b)) * 8 > sint (text_area_y ?b) + sint (text_area_h ?b)"
    by (simp add: next_line_y_def line_advance_def begin_fg_def setCursor_def setTextArea_def i16_def res_defs)
  have b: "sint (next_line_y ?b) = 115" "sint (text_area_y ?b) + sint (text_area_h ?b) = 110"
    by (simp_all add: next_line_y_def line_advance_def begin_fg_def setCursor_def setTextArea_def i16_def res_defs)
  have inv: "display_inv ?b"
    by (simp add: display_inv_def begin_fg_def setCursor_def setTextArea_def)
  have on: "on_screen ?b 20 20" "on_screen ?b 5 7"
    by (simp_all add: on_screen_def begin_fg_def setCursor_def setTextArea_def i16_def res_defs)
  have v: "in_text_area ?b 20 20" "\<not> in_text_area ?b 5 7"
    "text_area_x ?b = 10" "text_area_y ?b = 10" "text_bg_color ?b = 0"
    "cell_index ?b 20 20 = 20 * 800 + 20" "cell_index ?b 5 7 = 7 * 800 + 5"
    by (simp_all add: begin_fg_def setCursor_def setTextArea_def i16_def res_defs
        in_text_area_def cell_index_def transformCoordinates_def COLOR_BLACK_def)
  have w: "frame_buffer ?b (20 * 800 + 20) = 0xFFFF" "frame_buffer ?b (7 * 800 + 5) = 0xFFFF"
    by (simp_all add: begin_fg_def setCursor_def setTextArea_def fb_white_def)
  have c: "sint (cursor_y ?c) + (int (unat (text_size ?c)) * 8 + sint (line_spacing ?c)) = 32768"
    by (simp add: setLineSpacing_def setCursor_def begin_fg_def)
  have A: "sint (next_line_y ?a) + int (unat (text_size ?a)) * 8 \<le> sint (text_area_y ?a) + sint (text_area_h ?a)
        \<longrightarrow> newLine ?a = ?a\<lparr>cursor_x := text_area_x ?a, cursor_y := next_line_y ?a\<rparr>"
    using newline_advances_or_clears [of ?a] by (elim conjE)
  have B: "sint (next_line_y ?b) + int (unat (text_size ?b)) * 8 > sint (text_area_y ?b) + sint (text_area_h ?b)
        \<longrightarrow> newLine ?b = clearTextArea (?b\<lparr>cursor_x := text_area_x ?b, cursor_y := next_line_y ?b\<rparr>)
            \<and> cursor_x (newLine ?b) = text_area_x ?b \<and> cursor_y (newLine ?b) = text_area_y ?b
            \<and> (display_inv ?b \<longrightarrow>
                 (\<forall>px py. on_screen ?b px py \<longrightarrow>
                    frame_buffer (newLine ?b) (cell_index ?b px py)
                      = (if in_text_area ?b px py then text_bg_color ?b
                         else frame_buffer ?b (cell_index ?b px py))))"
    using newline_advances_or_clears [of ?b] by (elim conjE)
  note B' = B [THEN mp, OF over]
  note fb = B' [THEN conjunct2, THEN conjunct2, THEN conjunct2, THEN mp, OF inv, rule_format]
  have C: "sint (next_line_y ?c)
        = (sint (cursor_y ?c) + (int (unat (text_size ?c)) * 8 + sint (line_spacing ?c)) + 32768) mod 65536 - 32768"
    using newline_advances_or_clears [of ?c] by (elim conjE)
  have 0: "newLine ?a = ?a\<lparr>cursor_x := text_area_x ?a, cursor_y := next_line_y ?a\<rparr>"
    using A a(1) by (rule mp)
  have 1: "cursor_x (newLine ?b) = 10" "cursor_y (newLine ?b) = 10"
    using B' [THEN conjunct2, THEN conjunct1] B' [THEN conjunct2, THEN conjunct2, THEN conjunct1]
    by (simp_all only: v(3,4))
  have 2: "frame_buffer (newLine ?b) (20 * 800 + 20) = 0"
    using fb [OF on(1)] v(1) by (simp only: v(5,6) if_True)
  have 3: "frame_buffer (newLine ?b) (7 * 800 + 5) = 0xFFFF"
    using fb [OF on(2)] v(2) by (simp only: v(7) w(2) if_False)
  have 5: "sint (next_line_y ?c) = - 32768"
    using C by (simp only: c) simp
  show ?thesis
    using a(1) 0 a(2) b 1 w(1) 2 3 5 by (intro conjI)
qed

text \<open>
  On the full-screen text area of 480 rows, size 1 and line spacing 2, a newline at
  cursor y 465 gives the new y 475, which does not exceed the bottom edge 480; the row
  of glyphs from 475 would end at 483, so the text area is cleared and the cursor y is 0.
\<close>

theorem newline_clears_before_bottom_edge:
  "sint (cursor_y (setCursor 0 465 (begin_fg fb_white))) + line_advance (setCursor 0 465 (begin_fg fb_white)) = 475
   \<and> sint (text_area_y (setCursor 0 465 (begin_fg fb_white)))
        + sint (text_area_h (setCursor 0 465 (begin_fg fb_white))) = 480
   \<and> cursor_y (newLine (setCursor 0 465 (begin_fg fb_white))) = 0
   \<and> frame_buffer (setCursor 0 465 (begin_fg fb_white)) (7 * 800 + 5) = 0xFFFF
   \<and> frame_buffer (newLine (setCursor 0 465 (begin_fg fb_white))) (7 * 800 + 5) = 0"
proof -
  let ?b = "setCursor 0 465 (begin_fg fb_white)"
  let ?t = "?b\<lparr>cursor_x := text_area_x ?b, cursor_y := next_line_y ?b\<rparr>"
  have b: "sint (cursor_y ?b) + line_advance ?b = 475" "sint (next_line_y ?b) = 475"
    "sint (text_area_y ?b) + sint (text_area_h ?b) = 480"
    "int (unat (text_size ?b)) * 8 = 8"
    "display_inv ?b" "on_screen ?b 5 7" "in_text_area ?b 5 7"
    "text_area_y ?b = 0" "text_bg_color ?b = 0"
    "cell_index ?b 5 7 = 7 * 800 + 5"
    "frame_buffer ?b = fb_white"
    by (simp_all add: next_line_y_def line_advance_def begin_fg_def setCursor_def i16_def res_defs
        display_inv_def on_screen_def in_text_area_def cell_index_def transformCoordinates_def COLOR_BLACK_def)
  have gt: "sint (next_line_y ?b) + int (unat (text_size ?b)) * 8 > sint (text_area_y ?b) + sint (text_area_h ?b)"
    by (simp add: next_line_y_def line_advance_def begin_fg_def setCursor_def i16_def res_defs)
  have n: "newLine ?b = clearTextArea ?t"
    using gt by (simp only: newLine_unfold [of ?b] if_True)
  have 1: "cursor_y (newLine ?b) = 0"
    using clearTextArea_after_cursor(2) [of ?b] by (simp only: n b)
  have 2: "frame_buffer (newLine ?b) (7 * 800 + 5) = 0"
    using clearTextArea_after_cursor(3) [of ?b 5 7, OF b(5,6)] by (simp only: n b if_True)
  have 3: "frame_buffer ?b (7 * 800 + 5) = 0xFFFF"
    by (simp add: setCursor_def begin_fg_def fb_white_def)
  show ?thesis
    using b(1,3) 1 2 3 by (intro conjI)
qed

section \<open>Stores stay inside the framebuffer: the building blocks\<close>

lemma writes_in_bounds_fb_store:
  "writes_in_bounds s \<Longrightarrow> 0 \<le> i \<Longrightarrow> i < LCD_H_RES * LCD_V_RES \<Longrightarrow> writes_in_bounds (fb_store i c s)"
  by (simp add: writes_in_bounds_def fb_store_def)

lemma writes_in_bounds_pixel:
  assumes "writes_in_bounds s"
  shows "writes_in_bounds (pixel x y c s)"
proof -
  obtain x' y' where t: "transformCoordinates s (x, y) = (x', y')"
    by (cases "transformCoordinates s (x, y)")
  have "0 \<le> sint y' * LCD_H_RES + sint x' \<and> sint y' * LCD_H_RES + sint x' < LCD_H_RES * LCD_V_RES"
    if "sint x' \<ge> 0" "sint x' < LCD_H_RES" "sint y' \<ge> 0" "sint y' < LCD_V_RES"
  proof -
    have "sint y' * 800 \<le> 479 * 800"
      using that by (simp add: res_defs)
    then show ?thesis
      using that by (simp add: res_defs)
  qed
  then show ?thesis
    using assms by (simp add: pixel_def t writes_in_bounds_fb_store)
qed

lemma rect_cells_in_bounds:
  assumes inv: "display_inv s" and i: "i \<in> rect_cells s x y w h"
  shows "0 \<le> i \<and> i < LCD_H_RES * LCD_V_RES"
proof -
  from i obtain px py where p: "i = cell_at (current_rotation s) px py"
    "0 \<le> px" "px < sint (display_width s)" "0 \<le> py" "py < sint (display_height s)"
    unfolding rect_cells_def by auto
  show ?thesis
    using p display_inv_dims [OF inv]
    by (cases "current_rotation s"; simp add: cell_at_def res_defs)
qed

lemma safe_draws: "draws s s' \<Longrightarrow> writes_in_bounds s' \<Longrightarrow> safe s \<Longrightarrow> safe s'"
  by (simp add: safe_def display_inv_draws)

lemma safe_pixel: "safe s \<Longrightarrow> safe (pixel x y c s)"
  using draws_pixel [of s x y c] writes_in_bounds_pixel [of s x y c]
  by (simp add: safe_def display_inv_draws)

lemma safe_fillRect:
  assumes "safe s"
  shows "safe (fillRect x y w h c s)"
proof -
  have inv: "display_inv s" and wb: "writes_in_bounds s"
    using assms by (simp_all add: safe_def)
  note p = paints_apply [OF paints_fillRect [OF inv, of x y w h c]]
  have "writes_in_bounds (fillRect x y w h c s)"
    using wb rect_cells_in_bounds [OF inv, of _ x y w h]
    unfolding writes_in_bounds_def p(3) by blast
  then show ?thesis
    using p(1) assms by (simp add: safe_draws)
qed

lemma safe_fold:
  assumes "\<And>k t. safe t \<Longrightarrow> safe (step k t)" and "safe s"
  shows "safe (fold step ks s)"
  using assms(2) by (induction ks arbitrary: s) (simp_all add: assms(1))

lemma safe_clear: "safe s \<Longrightarrow> safe (clear c s)"
  by (simp add: clear_def safe_fillRect)

lemma safe_drawChar: "safe s \<Longrightarrow> safe (drawChar x y c color bg sz s)"
  unfolding drawChar_def Let_def
  by (auto intro!: safe_fold safe_pixel safe_fillRect)

lemma safe_text_loop: "safe s \<Longrightarrow> safe (text_loop x color bg sz str cx cy s)"
  by (induction str arbitrary: cx cy s) (simp_all add: safe_drawChar)

lemma safe_text_fg: "safe s \<Longrightarrow> safe (text_fg x y str color bg sz s)"
  by (simp add: text_fg_def safe_text_loop)

lemma safe_cursor_update [simp]:
  "safe (s\<lparr>cursor_x := a\<rparr>) = safe s" "safe (s\<lparr>cursor_y := b\<rparr>) = safe s"
  by (simp_all add: safe_def display_inv_def writes_in_bounds_def)

lemma safe_clearTextArea: "safe s \<Longrightarrow> safe (clearTextArea s)"
  by (simp add: clearTextArea_def Let_def safe_fillRect)

lemma safe_newLine: "safe s \<Longrightarrow> safe (newLine s)"
  by (simp add: newLine_def Let_def safe_clearTextArea)

lemma safe_advanceCursor: "safe s \<Longrightarrow> safe (advanceCursor cw ch s)"
  by (simp add: advanceCursor_def Let_def safe_newLine)

lemma safe_print_char: "safe s \<Longrightarrow> safe (print_char c s)"
  by (simp add: print_char_def safe_newLine safe_advanceCursor safe_drawChar)

lemma safe_print_str: "safe s \<Longrightarrow> safe (print_str str s)"
  by (induction str arbitrary: s) (simp_all add: safe_newLine safe_advanceCursor safe_drawChar)

lemma safe_printWrapped_loop:
  "safe s \<Longrightarrow> safe (snd (printWrapped_loop x maxWidth color sz lh str L s))"
  by (induction str arbitrary: L s) (simp_all add: Let_def safe_text_fg)

lemma safe_printWrapped: "safe s \<Longrightarrow> safe (printWrapped buf x y maxWidth str color sz s)"
  by (simp add: printWrapped_def printWrapped_run_def safe_printWrapped_loop)

declare fillCircle_loop.simps [simp del]

lemma safe_fillCircle_loop: "safe s \<Longrightarrow> safe (fillCircle_loop x0 y0 color x y d s)"
proof (induction x0 y0 color x y d s rule: fillCircle_loop.induct)
  case (1 x0 y0 color x y decision s)
  show ?case
  proof (cases "sint x < sint y")
    case False
    then show ?thesis
      using "1.prems" by (subst fillCircle_loop.simps) simp
  next
    case True
    show ?thesis
      using True "1.prems"
      by (subst fillCircle_loop.simps)
        (auto simp: Let_def safe_fillRect split: if_splits intro!: "1.IH")
  qed
qed

lemma safe_fillCircle: "safe s \<Longrightarrow> safe (fillCircle x0 y0 r c s)"
  by (simp add: fillCircle_def safe_fillCircle_loop safe_fillRect)


section \<open>The circle loop ends\<close>

lemma circle_alt:
  "circle x0 y0 radius color s =
     (if sint radius \<le> 0 then Some s
      else map_option (\<lambda>(x, y, decision, s'). s')
             (while_option circle_cond (circle_step x0 y0 color) (0, radius, i16 (1 - sint radius), s)))"
  by (simp add: circle_def circle_cond_def)

lemma circle_step_locals:
  "circle_step x0 y0 color (x, y, d, s) =
     (i16 (sint x + 1),
      (if sint d < 0 then y else i16 (sint y - 1)),
      (if sint d < 0 then i16 (sint d + (2 * sint x + 3)) else i16 (sint d + (2 * (sint x - sint y) + 5))),
      snd (snd (snd (circle_step x0 y0 color (x, y, d, s)))))"
  by (simp add: circle_step_def Let_def)

lemma circle_locals_step:
  assumes ok: "circle_locals_ok (x, y, d, s)" and le: "sint x \<le> sint y"
  shows "case circle_step x0 y0 color (x, y, d, s) of (x', y', d', s') \<Rightarrow>
           sint x' = sint x + 1 \<and> sint y' \<le> sint y \<and> circle_locals_ok (x', y', d', s')"
proof -
  have ry: "sint y \<le> 32767" and rx: "- 32768 \<le> sint x"
    using sint_int16_range [of y] sint_int16_range [of x] by simp_all
  have x0: "0 \<le> sint x"
    using ok by (simp add: circle_locals_ok_def)
  have xs: "sint x \<le> 32766"
  proof (cases "sint y \<le> 32766")
    case True
    with le show ?thesis by simp
  next
    case False
    with ok have "sint x \<le> 181" by (simp add: circle_locals_ok_def)
    then show ?thesis by simp
  qed
  have sx: "sint (i16 (sint x + 1)) = sint x + 1"
    using xs x0 by (intro sint_i16) simp_all
  have sy: "sint (i16 (sint y - 1)) = sint y - 1"
    using le x0 ry by (intro sint_i16) simp_all
  let ?y' = "if sint d < 0 then y else i16 (sint y - 1)"
  let ?d' = "if sint d < 0 then i16 (sint d + (2 * sint x + 3)) else i16 (sint d + (2 * (sint x - sint y) + 5))"
  let ?s' = "snd (snd (snd (circle_step x0 y0 color (x, y, d, s))))"
  have yle: "sint ?y' \<le> sint y"
    by (simp add: sy)
  have ok': "circle_locals_ok (i16 (sint x + 1), ?y', ?d', ?s')"
  proof (cases "sint y \<le> 32766")
    case True
    then show ?thesis
      using x0 yle by (simp add: circle_locals_ok_def sx)
  next
    case False
    with ok have big: "sint x \<le> 181" "sint d = sint x * sint x + 2 * sint x - 32766"
      by (simp_all add: circle_locals_ok_def)
    show ?thesis
    proof (cases "sint d < 0")
      case neg: True
      have "sint x \<noteq> 181"
        using neg big(2) by auto
      with big(1) have x180: "sint x \<le> 180" by simp
      have sq: "sint x * sint x \<le> 180 * 180"
        using x0 x180 by (intro mult_mono) simp_all
      have e: "sint (i16 (sint d + (2 * sint x + 3))) = sint d + (2 * sint x + 3)"
        using x0 x180 sq big(2) by (intro sint_i16) simp_all
      have "?d' = i16 (sint d + (2 * sint x + 3))"
        using neg by simp
      then have "sint ?d' = sint d + (2 * sint x + 3)"
        by (simp only: e)
      also have "\<dots> = (sint x + 1) * (sint x + 1) + 2 * (sint x + 1) - 32766"
        unfolding big(2) by (simp add: algebra_simps)
      finally have "sint ?d' = (sint x + 1) * (sint x + 1) + 2 * (sint x + 1) - 32766" .
      then show ?thesis
        using x0 x180 by (simp add: circle_locals_ok_def sx)
    next
      case nonneg: False
      have "sint y = 32767"
        using False ry by simp
      moreover have "sint (i16 32766) = 32766"
        by (simp add: sint_i16)
      ultimately show ?thesis
        using nonneg x0 by (simp add: circle_locals_ok_def sx)
    qed
  qed
  have "case (i16 (sint x + 1), ?y', ?d', ?s') of (x', y', d', s') \<Rightarrow>
           sint x' = sint x + 1 \<and> sint y' \<le> sint y \<and> circle_locals_ok (x', y', d', s')"
    unfolding split_conv using sx yle ok' by blast
  then show ?thesis
    by (subst circle_step_locals)
qed

lemma circle_loop_terminates:
  assumes "circle_locals_ok st"
  shows "\<exists>t. while_option circle_cond (circle_step x0 y0 color) st = Some t"
proof (rule wf_while_option_Some [where P = circle_locals_ok])
  show "circle_locals_ok st" by (rule assms)
next
  fix st assume a: "circle_locals_ok st" "circle_cond st"
  obtain x y d s where st: "st = (x, y, d, s)" by (cases st)
  obtain x' y' d' s' where r: "circle_step x0 y0 color (x, y, d, s) = (x', y', d', s')"
    by (cases "circle_step x0 y0 color (x, y, d, s)")
  from a have "circle_locals_ok (x, y, d, s)" "sint x \<le> sint y"
    by (simp_all add: st circle_cond_def)
  from circle_locals_step [OF this, of x0 y0 color]
  show "circle_locals_ok (circle_step x0 y0 color st)"
    by (simp add: st r)
next
  have "{(t, st). (circle_locals_ok st \<and> circle_cond st) \<and> t = circle_step x0 y0 color st}
        \<subseteq> measure (\<lambda>(x, y, d, s). nat (sint y - sint x + 1))"
  proof
    fix pr assume "pr \<in> {(t, st). (circle_locals_ok st \<and> circle_cond st) \<and> t = circle_step x0 y0 color st}"
    then obtain st where pr: "pr = (circle_step x0 y0 color st, st)"
      and a: "circle_locals_ok st" "circle_cond st"
      by auto
    obtain x y d s where st: "st = (x, y, d, s)" by (cases st)
    obtain x' y' d' s' where r: "circle_step x0 y0 color (x, y, d, s) = (x', y', d', s')"
      by (cases "circle_step x0 y0 color (x, y, d, s)")
    from a have b: "circle_locals_ok (x, y, d, s)" "sint x \<le> sint y"
      by (simp_all add: st circle_cond_def)
    from circle_locals_step [OF b, of x0 y0 color]
    have "sint x' = sint x + 1" "sint y' \<le> sint y"
      by (simp_all add: r)
    with b(2) show "pr \<in> measure (\<lambda>(x, y, d, s). nat (sint y - sint x + 1))"
      by (simp add: pr st r)
  qed
  then show "wf {(t, st). (circle_locals_ok st \<and> circle_cond st) \<and> t = circle_step x0 y0 color st}"
    by (rule wf_subset [OF wf_measure])
qed

lemma circle_start_ok:
  assumes "0 < sint radius"
  shows "circle_locals_ok (0, radius, i16 (1 - sint radius), s)"
proof -
  have "sint (i16 (1 - sint radius)) = 1 - sint radius"
    using assms sint_int16_range [of radius] by (intro sint_i16) simp_all
  then show ?thesis
    using sint_int16_range [of radius] by (auto simp: circle_locals_ok_def)
qed

lemma circle_returns:
  assumes "0 < sint radius"
  shows "\<exists>s'. circle x0 y0 radius color s = Some s'"
  using circle_loop_terminates [OF circle_start_ok [OF assms], of x0 y0 color s] assms
  by (auto simp: circle_alt)


section \<open>Symmetry of the circle outline (C8)\<close>

lemma mirror8_closed:
  assumes "p \<in> set (circle_points x0 y0 x y)" and "q \<in> set (mirror8 x0 y0 p)"
  shows "q \<in> set (circle_points x0 y0 x y)"
proof -
  from assms(1) have "p \<in> {(x0 + x, y0 + y), (x0 - x, y0 + y), (x0 + x, y0 - y), (x0 - x, y0 - y),
      (x0 + y, y0 + x), (x0 - y, y0 + x), (x0 + y, y0 - x), (x0 - y, y0 - x)}"
    by (simp add: circle_points_def)
  then show ?thesis
    using assms(2) unfolding mirror8_def circle_points_def
    by (elim insertE emptyE; simp; elim disjE; simp)
qed

lemma pixel_writes:
  assumes "display_inv s"
  shows "fb_writes (pixel x y c s) = (if on_screen s x y then [cell_index s x y] else []) @ fb_writes s"
  by (cases "on_screen s x y") (simp_all add: pixel_on_screen [OF assms] pixel_off_screen fb_store_def)

lemma plot_points_writes:
  assumes inv: "display_inv s"
  shows "draws s (fold (\<lambda>p. pixel (fst p) (snd p) c) pts s)
     \<and> (\<exists>W. fb_writes (fold (\<lambda>p. pixel (fst p) (snd p) c) pts s) = W @ fb_writes s
            \<and> set W = (\<lambda>q. cell_index s (fst q) (snd q)) ` {q \<in> set pts. on_screen s (fst q) (snd q)})"
proof (induction pts rule: rev_induct)
  case Nil
  show ?case by (simp add: draws_refl)
next
  case (snoc p pts)
  let ?t = "fold (\<lambda>p. pixel (fst p) (snd p) c) pts s"
  from snoc obtain W where d: "draws s ?t" and W: "fb_writes ?t = W @ fb_writes s"
    "set W = (\<lambda>q. cell_index s (fst q) (snd q)) ` {q \<in> set pts. on_screen s (fst q) (snd q)}"
    by blast
  have inv': "display_inv ?t"
    using inv d by (simp add: display_inv_draws)
  let ?V = "(if on_screen s (fst p) (snd p) then [cell_index s (fst p) (snd p)] else []) @ W"
  have "fb_writes (pixel (fst p) (snd p) c ?t) = ?V @ fb_writes s"
    using pixel_writes [OF inv', of "fst p" "snd p" c] d
    by (simp add: W(1) on_screen_draws cell_index_draws)
  moreover have "set ?V = (\<lambda>q. cell_index s (fst q) (snd q)) ` {q \<in> set (pts @ [p]). on_screen s (fst q) (snd q)}"
    using W(2) by auto
  moreover have "draws s (pixel (fst p) (snd p) c ?t)"
    using d draws_pixel by (rule draws_trans)
  ultimately show ?case
    by (simp del: set_append)
qed

lemma circle_step_state:
  "snd (snd (snd (circle_step x0 y0 c (x, y, d, s))))
     = fold (\<lambda>p. pixel (fst p) (snd p) c) (circle_points x0 y0 x y) s"
  by (simp add: circle_step_def Let_def circle_points_def i16_def split: prod.splits)

lemma sym_on_screen_step:
  assumes inv: "display_inv s" and sym: "sym_on_screen s x0 y0 A"
  shows "sym_on_screen s x0 y0
           ((\<lambda>q. cell_index s (fst q) (snd q)) ` {q \<in> set (circle_points x0 y0 x y). on_screen s (fst q) (snd q)} \<union> A)"
  unfolding sym_on_screen_def
proof (intro allI impI, elim conjE)
  fix p q
  let ?B = "(\<lambda>q. cell_index s (fst q) (snd q)) ` {q \<in> set (circle_points x0 y0 x y). on_screen s (fst q) (snd q)}"
  assume p: "on_screen s (fst p) (snd p)" and q: "q \<in> set (mirror8 x0 y0 p)" "on_screen s (fst q) (snd q)"
    and c: "cell_index s (fst p) (snd p) \<in> ?B \<union> A"
  show "cell_index s (fst q) (snd q) \<in> ?B \<union> A"
  proof (cases "cell_index s (fst p) (snd p) \<in> A")
    case True
    then show ?thesis
      using sym p q unfolding sym_on_screen_def by blast
  next
    case False
    with c obtain t where t: "t \<in> set (circle_points x0 y0 x y)" "on_screen s (fst t) (snd t)"
      "cell_index s (fst p) (snd p) = cell_index s (fst t) (snd t)"
      by blast
    have "fst p = fst t \<and> snd p = snd t"
      using cell_index_inj [OF inv p t(2) t(3)] .
    then have "p = t"
      by (simp add: prod_eq_iff)
    then have "q \<in> set (circle_points x0 y0 x y)"
      using mirror8_closed [OF t(1)] q(1) by simp
    then show ?thesis
      using q(2) by blast
  qed
qed

lemma circle_inv_step:
  assumes inv: "display_inv s" and ci: "circle_inv s x0 y0 st"
  shows "circle_inv s x0 y0 (circle_step x0 y0 c st)"
proof -
  obtain x y d t where st: "st = (x, y, d, t)" by (cases st)
  from ci obtain W where d: "draws s t" and W: "fb_writes t = W @ fb_writes s" "sym_on_screen s x0 y0 (set W)"
    by (auto simp: circle_inv_def st)
  let ?t' = "fold (\<lambda>p. pixel (fst p) (snd p) c) (circle_points x0 y0 x y) t"
  have inv': "display_inv t"
    using inv d by (simp add: display_inv_draws)
  from plot_points_writes [OF inv', of c "circle_points x0 y0 x y"]
  obtain V where d': "draws t ?t'" and V: "fb_writes ?t' = V @ fb_writes t"
    "set V = (\<lambda>q. cell_index t (fst q) (snd q)) ` {q \<in> set (circle_points x0 y0 x y). on_screen t (fst q) (snd q)}"
    by blast
  have V': "set V = (\<lambda>q. cell_index s (fst q) (snd q)) ` {q \<in> set (circle_points x0 y0 x y). on_screen s (fst q) (snd q)}"
    using V(2) d by (simp add: on_screen_draws cell_index_draws)
  have "sym_on_screen s x0 y0 (set (V @ W))"
    using sym_on_screen_step [OF inv W(2), of x y] by (simp add: V')
  moreover have "fb_writes ?t' = (V @ W) @ fb_writes s"
    by (simp add: V(1) W(1))
  moreover have "draws s ?t'"
    using d d' by (rule draws_trans)
  ultimately have "draws s ?t' \<and> (\<exists>U. fb_writes ?t' = U @ fb_writes s \<and> sym_on_screen s x0 y0 (set U))"
    by blast
  then show ?thesis
    unfolding st by (subst circle_step_locals) (simp only: circle_inv_def split_conv circle_step_state)
qed

lemma circle_inv_start: "circle_inv s x0 y0 (x, y, d, s)"
  by (simp add: circle_inv_def draws_refl sym_on_screen_def)

lemma stores_since_append: "fb_writes s' = W @ fb_writes s \<Longrightarrow> stores_since s s' = W"
  by (simp add: stores_since_def)

lemma circle_final:
  assumes inv: "display_inv s" and r: "0 < sint radius"
  shows "\<exists>x y d s'. circle x0 y0 radius color s = Some s' \<and> circle_inv s x0 y0 (x, y, d, s')"
proof -
  let ?st = "(0, radius, i16 (1 - sint radius), s)"
  obtain t where t: "while_option circle_cond (circle_step x0 y0 color) ?st = Some t"
    using circle_loop_terminates [OF circle_start_ok [OF r]] by blast
  have "circle_inv s x0 y0 t"
  proof (rule while_option_rule [where P = "circle_inv s x0 y0", OF _ t])
    show "circle_inv s x0 y0 ?st"
      by (rule circle_inv_start)
  next
    fix st assume "circle_inv s x0 y0 st"
    then show "circle_inv s x0 y0 (circle_step x0 y0 color st)"
      by (rule circle_inv_step [OF inv])
  qed
  moreover obtain x y d s' where "t = (x, y, d, s')"
    by (cases t)
  moreover have "circle x0 y0 radius color s = Some (snd (snd (snd t)))"
    using r by (simp add: circle_alt t split: prod.splits)
  ultimately show ?thesis
    by auto
qed

text \<open>
  C8.  The spec says that the set of pixels painted by \<^verbatim>\<open>circle\<close> is closed
  under the eight reflections about the center, for every center and every radius
  \<open>r > 0\<close>.  In the source every point of the circle is drawn by \<^verbatim>\<open>pixel\<close>, which
  skips a point outside the logical screen.  So the property holds as far as the
  screen reaches: \<^verbatim>\<open>circle\<close> returns, and whenever it has painted the pixel \<open>p\<close>, it
  has painted every one of the eight images of \<open>p\<close> that lies on the logical screen.
  An image outside the screen is not painted: the circle of radius 1 about the corner
  \<open>(0, 0)\<close> paints \<open>(1, 0)\<close> and not \<open>(- 1, 0)\<close>.

  \<open>painted s s'\<close> is the set of logical pixels whose cell was stored to between the
  states \<open>s\<close> and \<open>s'\<close>, and \<open>mirror8 x0 y0 p\<close> lists the eight images of \<open>p\<close>.
\<close>

theorem circle_symmetric_on_screen:
  assumes "display_inv s" and "0 < sint radius"
  shows "\<exists>s'. circle x0 y0 radius color s = Some s'
           \<and> (\<forall>p q. p \<in> painted s s' \<and> q \<in> set (mirror8 x0 y0 p) \<and> on_screen s (fst q) (snd q)
                  \<longrightarrow> q \<in> painted s s')"
proof -
  from circle_final [OF assms, of x0 y0 color]
  obtain x y d s' where c: "circle x0 y0 radius color s = Some s'" and ci: "circle_inv s x0 y0 (x, y, d, s')"
    by blast
  from ci have "\<exists>W. fb_writes s' = W @ fb_writes s \<and> sym_on_screen s x0 y0 (set W)"
    unfolding circle_inv_def split_conv by (rule conjunct2)
  then obtain W where W: "fb_writes s' = W @ fb_writes s" "sym_on_screen s x0 y0 (set W)"
    by (elim exE conjE)
  note since = stores_since_append [OF W(1)]
  have "q \<in> painted s s'"
    if pq: "p \<in> painted s s'" "q \<in> set (mirror8 x0 y0 p)" "on_screen s (fst q) (snd q)" for p q
  proof -
    from pq(1) have p: "on_screen s (fst p) (snd p)" "cell_index s (fst p) (snd p) \<in> set W"
      by (simp_all add: painted_def since)
    have "cell_index s (fst q) (snd q) \<in> set W"
      using W(2) [unfolded sym_on_screen_def, rule_format, of p q] p pq(2,3) by simp
    then show ?thesis
      using pq(3) by (simp add: painted_def since)
  qed
  then have "\<forall>p q. p \<in> painted s s' \<and> q \<in> set (mirror8 x0 y0 p) \<and> on_screen s (fst q) (snd q)
                  \<longrightarrow> q \<in> painted s s'"
    by (intro allI impI) (elim conjE)
  with c show ?thesis
    by (intro exI [of _ s'] conjI)
qed

lemma circle_example:
  "circle 0 0 1 0xFFFF (begin_fg fb_zero)
     = Some (snd (snd (snd (circle_step 0 0 0xFFFF (0, 1, 0, begin_fg fb_zero)))))"
  "fb_writes (snd (snd (snd (circle_step 0 0 0xFFFF (0, 1, 0, begin_fg fb_zero))))) = [1, 1, 800, 800]"
proof -
  let ?st0 = "(0, 1, 0, begin_fg fb_zero) :: int16 \<times> int16 \<times> int16 \<times> state"
  let ?st1 = "circle_step 0 0 0xFFFF ?st0"
  have c0: "circle_cond ?st0"
    by (simp add: circle_cond_def)
  have "fst ?st1 = 1" "fst (snd ?st1) = 0"
    by (simp_all add: circle_step_def Let_def i16_def)
  then have c1: "\<not> circle_cond ?st1"
    by (simp add: circle_cond_def split_beta)
  have "while_option circle_cond (circle_step 0 0 0xFFFF) ?st0 = Some ?st1"
    by (subst while_option_unfold, simp only: c0 if_True, subst while_option_unfold, simp only: c1 if_False)
  then show "circle 0 0 1 0xFFFF (begin_fg fb_zero) = Some (snd (snd (snd ?st1)))"
    by (simp add: circle_alt i16_def split_beta)
  show "fb_writes (snd (snd (snd ?st1))) = [1, 1, 800, 800]"
    by (simp add: circle_step_state circle_points_def pixel_def transformCoordinates_def begin_fg_def
        fb_store_def i16_def res_defs)
qed

theorem circle_clipped_at_origin:
  "(1, 0) \<in> painted (begin_fg fb_zero) (the (circle 0 0 1 0xFFFF (begin_fg fb_zero)))
   \<and> (- 1, 0) \<in> set (mirror8 0 0 (1, 0))
   \<and> (- 1, 0) \<notin> painted (begin_fg fb_zero) (the (circle 0 0 1 0xFFFF (begin_fg fb_zero)))"
proof -
  let ?s' = "snd (snd (snd (circle_step 0 0 0xFFFF (0, 1, 0, begin_fg fb_zero))))"
  have e: "fb_writes (begin_fg fb_zero) = []"
    by (simp add: begin_fg_def)
  have w: "stores_since (begin_fg fb_zero) ?s' = [1, 1, 800, 800]"
    by (rule stores_since_append) (simp add: circle_example(2) e)
  have "on_screen (begin_fg fb_zero) 1 0" "cell_index (begin_fg fb_zero) 1 0 = 1"
    "\<not> on_screen (begin_fg fb_zero) (- 1) 0"
    by (simp_all add: on_screen_def cell_index_def transformCoordinates_def begin_fg_def i16_def res_defs)
  then show ?thesis
    by (simp add: circle_example(1) painted_def w mirror8_def circle_points_def)
qed

theorem circle_symmetric_on_screen_witness:
  "display_inv (begin_fg fb_zero) \<and> 0 < sint (1 :: int16)
   \<and> (\<exists>s'. circle 0 0 1 0xFFFF (begin_fg fb_zero) = Some s'
           \<and> (\<forall>p q. p \<in> painted (begin_fg fb_zero) s' \<and> q \<in> set (mirror8 0 0 p)
                    \<and> on_screen (begin_fg fb_zero) (fst q) (snd q)
                  \<longrightarrow> q \<in> painted (begin_fg fb_zero) s'))"
proof -
  have h: "display_inv (begin_fg fb_zero)" "0 < sint (1 :: int16)"
    by (simp_all add: display_inv_begin)
  show ?thesis
    using h circle_symmetric_on_screen [OF h, of 0 0 "0xFFFF"] by (intro conjI)
qed


section \<open>No store leaves the framebuffer (C9)\<close>

lemma safe_circle:
  assumes s: "safe s" and c: "circle x0 y0 radius color s = Some s'"
  shows "safe s'"
proof (cases "sint radius \<le> 0")
  case True
  with s c show ?thesis by (simp add: circle_alt)
next
  case False
  let ?st = "(0, radius, i16 (1 - sint radius), s)"
  from False c obtain t where t: "while_option circle_cond (circle_step x0 y0 color) ?st = Some t"
    and s': "s' = snd (snd (snd t))"
    by (auto simp: circle_alt split_beta)
  have "safe (snd (snd (snd t)))"
  proof (rule while_option_rule [where P = "\<lambda>st. safe (snd (snd (snd st)))", OF _ t])
    show "safe (snd (snd (snd ?st)))"
      using s by simp
  next
    fix st :: "int16 \<times> int16 \<times> int16 \<times> state"
    assume a: "safe (snd (snd (snd st)))"
    obtain x y d u where st: "st = (x, y, d, u)" by (cases st)
    from a have "safe u"
      by (simp add: st)
    then have "safe (fold (\<lambda>p. pixel (fst p) (snd p) color) (circle_points x0 y0 x y) u)"
      by (intro safe_fold safe_pixel)
    then show "safe (snd (snd (snd (circle_step x0 y0 color st))))"
      by (simp only: st circle_step_state)
  qed
  then show ?thesis by (simp add: s')
qed

lemma line_step_state:
  "fst (snd (snd (snd (line_step x1 y1 dx dy sx sy color (x, y, err, s, stop))))) = pixel x y color s"
  by (simp add: line_step_def Let_def split_beta)

lemma safe_line:
  assumes s: "safe s" and l: "line x0 y0 x1 y1 color s = Some s'"
  shows "safe s'"
proof (cases "y0 = y1 \<or> x0 = x1")
  case True
  then show ?thesis
    using s l by (auto simp: line_def Let_def safe_fillRect split: if_splits)
next
  case False
  let ?dx = "i16 (\<bar>sint x1 - sint x0\<bar>)" and ?dy = "i16 (\<bar>sint y1 - sint y0\<bar>)"
  let ?sx = "(if sint x0 < sint x1 then 1 else - 1) :: int16"
  let ?sy = "(if sint y0 < sint y1 then 1 else - 1) :: int16"
  let ?st = "(x0, y0, i16 (sint ?dx - sint ?dy), s, False)"
  from False l obtain t where t: "while_option line_cond (line_step x1 y1 ?dx ?dy ?sx ?sy color) ?st = Some t"
    and s': "s' = fst (snd (snd (snd t)))"
    by (auto simp: line_def Let_def line_cond_def split_beta)
  have "safe (fst (snd (snd (snd t))))"
  proof (rule while_option_rule [where P = "\<lambda>st. safe (fst (snd (snd (snd st))))", OF _ t])
    show "safe (fst (snd (snd (snd ?st))))"
      using s by simp
  next
    fix st :: "int16 \<times> int16 \<times> int16 \<times> state \<times> bool"
    assume a: "safe (fst (snd (snd (snd st))))"
    obtain x y e u b where st: "st = (x, y, e, u, b)" by (cases st)
    from a have "safe u"
      by (simp add: st)
    then have "safe (pixel x y color u)"
      by (rule safe_pixel)
    then show "safe (fst (snd (snd (snd (line_step x1 y1 ?dx ?dy ?sx ?sy color st)))))"
      by (simp only: st line_step_state)
  qed
  then show ?thesis by (simp add: s')
qed

lemma safe_setRotation: "safe s \<Longrightarrow> safe (setRotation r s)"
proof -
  have "fb_writes (setRotation r s) = fb_writes s"
    by (simp add: setRotation_def Let_def split: ScreenRotation.splits)
  then show "safe s \<Longrightarrow> safe (setRotation r s)"
    by (simp add: safe_def display_inv_setRotation writes_in_bounds_def)
qed

lemma safe_line_steps:
  assumes "safe s"
  shows "safe (fst (snd (snd (snd ((line_step x1 y1 dx dy sx sy color ^^ n) (x, y, err, s, stop))))))"
proof (induction n)
  case 0
  show ?case using assms by simp
next
  case (Suc n)
  obtain xa ya e u b where st: "(line_step x1 y1 dx dy sx sy color ^^ n) (x, y, err, s, stop) = (xa, ya, e, u, b)"
    by (cases "(line_step x1 y1 dx dy sx sy color ^^ n) (x, y, err, s, stop)")
  from Suc have "safe u"
    by (simp add: st)
  then have "safe (pixel xa ya color u)"
    by (rule safe_pixel)
  then show ?case
    by (simp only: funpow.simps o_apply st line_step_state)
qed

lemma line_axis_returns:
  assumes "y0 = y1 \<or> x0 = x1"
  shows "\<exists>s'. line x0 y0 x1 y1 color s = Some s'"
  using assms by (auto simp: line_def Let_def split_beta)

lemma safe_rect:
  assumes s: "safe s"
  shows "\<exists>s'. rect x y w h color s = Some s' \<and> safe s'"
proof -
  let ?xr = "i16 (sint x + sint w - 1)" and ?yb = "i16 (sint y + sint h - 1)"
  obtain s1 where l1: "line x y ?xr y color s = Some s1"
    using line_axis_returns [of y y x ?xr] by blast
  obtain s2 where l2: "line x ?yb ?xr ?yb color s1 = Some s2"
    using line_axis_returns [of ?yb ?yb x ?xr] by blast
  obtain s3 where l3: "line x y x ?yb color s2 = Some s3"
    using line_axis_returns [of y ?yb x x] by blast
  obtain s4 where l4: "line ?xr y ?xr ?yb color s3 = Some s4"
    using line_axis_returns [of y ?yb ?xr ?xr] by blast
  have "safe s4"
    using safe_line [OF safe_line [OF safe_line [OF safe_line [OF s l1] l2] l3] l4] .
  moreover have "rect x y w h color s = Some s4"
    by (simp add: rect_def l1 l2 l3 l4)
  ultimately show ?thesis by simp
qed

lemma line_example: "\<exists>s'. line 0 0 1 1 0xF800 (begin_fg fb_zero) = Some s'"
proof -
  let ?f = "line_step 1 1 1 1 1 1 0xF800"
  let ?s1 = "pixel 0 0 0xF800 (begin_fg fb_zero)"
  let ?s2 = "pixel 1 1 0xF800 ?s1"
  have 1: "?f (0, 0, 0, begin_fg fb_zero, False) = (1, 1, 0, ?s1, False)"
    by (simp add: line_step_def Let_def i16_def)
  have 2: "?f (1, 1, 0, ?s1, False) = (1, 1, 0, ?s2, True)"
    by (simp add: line_step_def Let_def i16_def)
  have "while_option line_cond ?f (0, 0, 0, begin_fg fb_zero, False) = Some (1, 1, 0, ?s2, True)"
    by (subst while_option_unfold, simp only: line_cond_def split_conv 1 not_False_eq_True if_True,
        subst while_option_unfold, simp only: line_cond_def split_conv 2 not_False_eq_True if_True,
        subst while_option_unfold, simp only: line_cond_def split_conv not_True_eq_False if_False)
  then show ?thesis
    by (simp add: line_def Let_def i16_def line_cond_def)
qed

lemma safe_begin: "safe (begin_fg fb)"
proof -
  have "writes_in_bounds (begin_fg fb)"
    by (simp add: writes_in_bounds_def begin_fg_def)
  then show ?thesis
    by (simp add: safe_def display_inv_begin)
qed

lemma circle_always_returns: "\<exists>s'. circle x0 y0 radius color s = Some s'"
proof (cases "0 < sint radius")
  case True
  then show ?thesis by (rule circle_returns)
next
  case False
  then show ?thesis by (simp add: circle_alt)
qed

lemma printWrapped_loop_short:
  assumes "wb_in_bounds L" and "0 \<le> word_len L" and "word_len L + int (length str) \<le> 49"
  shows "wb_in_bounds (fst (printWrapped_loop x maxWidth color sz lh str L s))"
  using assms
proof (induction str arbitrary: L s)
  case Nil
  then show ?case by simp
next
  case (Cons c str)
  show ?case
  proof (cases "c = NUL")
    case True
    then show ?thesis using Cons.prems by simp
  next
    case False
    show ?thesis
    proof (cases "c = CHR '' '' \<or> c = CHR 0x0A \<or> c = CHR 0x09 \<or> (str = [] \<or> hd str = NUL)")
      case flush: True
      let ?L1 = "(if c \<noteq> CHR '' '' \<and> c \<noteq> CHR 0x0A \<and> c \<noteq> CHR 0x09
                  then (wb_store (word_len L) c L)\<lparr>word_len := word_len L + 1\<rparr>
                  else L)"
      let ?L2 = "wb_store (word_len ?L1) NUL ?L1"
      have l2: "wb_in_bounds ?L2"
        using Cons.prems by (auto simp: wb_in_bounds_def wb_store_def)
      obtain L6 s1 where step: "printWrapped_loop x maxWidth color sz lh (c # str) L s
          = printWrapped_loop x maxWidth color sz lh str L6 s1"
        and w6: "wb_writes L6 = wb_writes ?L2" and n6: "word_len L6 = 0"
        using False flush by (simp add: Let_def)
      have "wb_in_bounds L6"
        using l2 by (simp add: wb_in_bounds_def w6)
      moreover have "word_len L6 + int (length str) \<le> 49"
        using Cons.prems(2,3) by (simp add: n6)
      ultimately show ?thesis
        unfolding step by (intro Cons.IH) (simp_all add: n6)
    next
      case word: False
      let ?L1 = "if word_len L < 49 then (wb_store (word_len L) c L)\<lparr>word_len := word_len L + 1\<rparr> else L"
      have step: "printWrapped_loop x maxWidth color sz lh (c # str) L s
          = printWrapped_loop x maxWidth color sz lh str ?L1 s"
        using False word by (simp add: Let_def)
      have "wb_in_bounds ?L1" "0 \<le> word_len ?L1" "word_len ?L1 + int (length str) \<le> 49"
        using Cons.prems by (auto simp: wb_in_bounds_def wb_store_def)
      then show ?thesis
        unfolding step by (intro Cons.IH)
    qed
  qed
qed

lemma printWrapped_short:
  assumes "length str < 50"
  shows "wb_in_bounds (fst (printWrapped_run buf x y maxWidth str color sz s))"
  unfolding printWrapped_run_def
  using assms by (intro printWrapped_loop_short) (simp_all add: printWrapped_init_def wb_in_bounds_def)

lemma printWrapped_example:
  "wb_writes (fst (printWrapped_run wb_zero 3 4 1 ''Hello'' 0xF800 1 (begin_fg fb_zero))) = [5, 4, 3, 2, 1, 0]"
  by (simp add: printWrapped_run_def printWrapped_init_def wb_store_def Let_def NUL_def)

text \<open>
  C9.  Every store into the framebuffer made by a drawing operation has an index
  in the range from 0 up to, but not including, \<open>LCD_H_RES * LCD_V_RES\<close>.

  Every store of the model goes through \<open>fb_store\<close>, which records its index in
  \<open>fb_writes\<close>; \<open>writes_in_bounds\<close> says that all recorded indices are in range, and
  \<open>safe\<close> adds that the logical size matches the rotation (\<open>display_inv\<close>, which
  \<^verbatim>\<open>begin\<close> establishes and \<^verbatim>\<open>setRotation\<close> keeps).

  \<^item> The per-pixel path: \<^verbatim>\<open>pixel\<close> keeps every recorded index in range in any state
    whatever, because of its check of the physical coordinates.
  \<^item> The fast path: \<^verbatim>\<open>fillRect\<close> stores exactly at the cells of the clipped rectangle,
    and all of them are in range.
  \<^item> \<^verbatim>\<open>clear\<close>, \<^verbatim>\<open>fillCircle\<close>, \<^verbatim>\<open>circle\<close>, \<^verbatim>\<open>rect\<close>, \<^verbatim>\<open>drawChar\<close>, \<^verbatim>\<open>text\<close>, \<^verbatim>\<open>print\<close>,
    \<^verbatim>\<open>clearTextArea\<close> and \<^verbatim>\<open>newLine\<close> return, and keep every index in range.
  \<^item> \<^verbatim>\<open>printWrapped\<close> keeps every index in range in every run whose stores into its word
    buffer stay inside that array (\<open>wb_in_bounds\<close>); this is so for every string shorter
    than 50 bytes (lemma \<open>printWrapped_short\<close>).  A run that stores outside the word
    buffer is undefined in the source, and nothing is said about it.
  \<^item> \<^verbatim>\<open>line\<close>: after any number of rounds of its loop every index is in range, and so
    it is in the state the loop returns.
\<close>

theorem stores_stay_in_framebuffer:
  "safe (begin_fg fb)
   \<and> (writes_in_bounds s \<longrightarrow> writes_in_bounds (pixel x y c s))
   \<and> (safe s \<longrightarrow>
        safe (setRotation rot s)
        \<and> safe (pixel x y c s)
        \<and> safe (fillRect x y w h c s)
        \<and> set (fb_writes (fillRect x y w h c s)) = rect_cells s x y w h \<union> set (fb_writes s)
        \<and> (\<forall>i \<in> rect_cells s x y w h. 0 \<le> i \<and> i < LCD_H_RES * LCD_V_RES)
        \<and> safe (clear c s)
        \<and> safe (fillCircle x y r c s)
        \<and> (\<exists>s'. circle x y r c s = Some s' \<and> safe s')
        \<and> (\<forall>n dx dy sx sy err.
              safe (fst (snd (snd (snd ((line_step x1 y1 dx dy sx sy c ^^ n) (x, y, err, s, False)))))))
        \<and> (\<forall>s'. line x y x1 y1 c s = Some s' \<longrightarrow> safe s')
        \<and> (\<exists>s'. rect x y w h c s = Some s' \<and> safe s')
        \<and> safe (drawChar x y ch c bg sz s)
        \<and> safe (text_fg x y str c bg sz s)
        \<and> safe (print_str str s)
        \<and> safe (print_char ch s)
        \<and> (wb_in_bounds (fst (printWrapped_run buf x y w str c sz s))
              \<longrightarrow> safe (printWrapped buf x y w str c sz s))
        \<and> safe (clearTextArea s)
        \<and> safe (newLine s))"
proof (intro conjI impI)
  show "safe (begin_fg fb)"
    by (rule safe_begin)
next
  assume "writes_in_bounds s"
  then show "writes_in_bounds (pixel x y c s)"
    by (rule writes_in_bounds_pixel)
next
  assume s: "safe s"
  then have inv: "display_inv s"
    by (simp add: safe_def)
  show "safe (setRotation rot s)"
    using s by (rule safe_setRotation)
  show "\<forall>n dx dy sx sy err.
          safe (fst (snd (snd (snd ((line_step x1 y1 dx dy sx sy c ^^ n) (x, y, err, s, False))))))"
    using safe_line_steps [OF s] by blast
  show "safe (pixel x y c s)" "safe (fillRect x y w h c s)" "safe (clear c s)"
    "safe (fillCircle x y r c s)" "safe (drawChar x y ch c bg sz s)"
    "safe (text_fg x y str c bg sz s)" "safe (print_str str s)" "safe (print_char ch s)"
    "safe (printWrapped buf x y w str c sz s)" "safe (clearTextArea s)" "safe (newLine s)"
    using s
    by (rule safe_pixel safe_fillRect safe_clear safe_fillCircle safe_drawChar safe_text_fg
        safe_print_str safe_print_char safe_printWrapped safe_clearTextArea safe_newLine)+
  show "set (fb_writes (fillRect x y w h c s)) = rect_cells s x y w h \<union> set (fb_writes s)"
    by (rule paints_apply(3) [OF paints_fillRect [OF inv]])
  show "\<forall>i \<in> rect_cells s x y w h. 0 \<le> i \<and> i < LCD_H_RES * LCD_V_RES"
    using rect_cells_in_bounds [OF inv] by blast
  obtain s' where c: "circle x y r c s = Some s'"
    using circle_always_returns by blast
  then show "\<exists>s'. circle x y r c s = Some s' \<and> safe s'"
    using safe_circle [OF s c] by simp
  show "\<forall>s'. line x y x1 y1 c s = Some s' \<longrightarrow> safe s'"
    using safe_line [OF s] by blast
  show "\<exists>s'. rect x y w h c s = Some s' \<and> safe s'"
    by (rule safe_rect [OF s])
qed

theorem stores_stay_in_framebuffer_witness:
  "writes_in_bounds (begin_fg fb_zero) \<and> safe (begin_fg fb_zero)
   \<and> writes_in_bounds (pixel 3 4 0xF800 (begin_fg fb_zero))
   \<and> safe (fillRect (- 5) (- 5) 900 900 0xF800 (begin_fg fb_zero))
   \<and> safe (clear 0xF800 (begin_fg fb_zero))
   \<and> safe (fillCircle 3 4 50 0xF800 (begin_fg fb_zero))
   \<and> (\<exists>s'. circle 3 4 50 0xF800 (begin_fg fb_zero) = Some s' \<and> safe s')
   \<and> (\<exists>s'. line 0 0 1 1 0xF800 (begin_fg fb_zero) = Some s' \<and> safe s')
   \<and> safe (print_str ''Hello'' (begin_fg fb_zero))
   \<and> wb_in_bounds (fst (printWrapped_run wb_zero 3 4 1 ''Hello'' 0xF800 1 (begin_fg fb_zero)))
   \<and> safe (printWrapped wb_zero 3 4 1 ''Hello'' 0xF800 1 (begin_fg fb_zero))"
proof -
  have h: "safe (begin_fg fb_zero)" "writes_in_bounds (begin_fg fb_zero)"
    using stores_stay_in_framebuffer [where fb = fb_zero, THEN conjunct1] by (simp_all add: safe_def)
  note a = stores_stay_in_framebuffer [where s = "begin_fg fb_zero" and x = 3 and y = 4 and c = "0xF800"
        and r = 50 and str = "''Hello''" and w = 1 and h = 1 and ?x1.0 = 1 and ?y1.0 = 1 and ch = "CHR ''A''"
        and bg = 0 and sz = 1 and buf = wb_zero and rot = ROTATION_90, THEN conjunct2, THEN conjunct2, THEN mp, OF h(1)]
  note b = stores_stay_in_framebuffer [where s = "begin_fg fb_zero" and x = "- 5" and y = "- 5" and c = "0xF800"
        and r = 50 and str = "''Hello''" and w = 900 and h = 900 and ?x1.0 = 1 and ?y1.0 = 1 and ch = "CHR ''A''"
        and bg = 0 and sz = 1 and buf = wb_zero and rot = ROTATION_90, THEN conjunct2, THEN conjunct2, THEN mp, OF h(1)]
  note c = stores_stay_in_framebuffer [where s = "begin_fg fb_zero" and x = 0 and y = 0 and c = "0xF800"
        and r = 50 and str = "''Hello''" and w = 1 and h = 1 and ?x1.0 = 1 and ?y1.0 = 1 and ch = "CHR ''A''"
        and bg = 0 and sz = 1 and buf = wb_zero and rot = ROTATION_90, THEN conjunct2, THEN conjunct2, THEN mp, OF h(1)]
  have 1: "writes_in_bounds (pixel 3 4 0xF800 (begin_fg fb_zero))"
    using stores_stay_in_framebuffer [where s = "begin_fg fb_zero" and x = 3 and y = 4 and c = "0xF800",
        THEN conjunct2, THEN conjunct1, THEN mp, OF h(2)] .
  have 2: "safe (fillRect (- 5) (- 5) 900 900 0xF800 (begin_fg fb_zero))"
    using b by simp
  have 3: "safe (clear 0xF800 (begin_fg fb_zero))" "safe (fillCircle 3 4 50 0xF800 (begin_fg fb_zero))"
    "\<exists>s'. circle 3 4 50 0xF800 (begin_fg fb_zero) = Some s' \<and> safe s'"
    "safe (print_str ''Hello'' (begin_fg fb_zero))"
    using a by simp_all
  have "\<forall>s'. line 0 0 1 1 0xF800 (begin_fg fb_zero) = Some s' \<longrightarrow> safe s'"
    using c by simp
  with line_example have 4: "\<exists>s'. line 0 0 1 1 0xF800 (begin_fg fb_zero) = Some s' \<and> safe s'"
    by (elim exE) (intro exI conjI, assumption, elim allE impE, assumption, assumption)
  have 5: "wb_in_bounds (fst (printWrapped_run wb_zero 3 4 1 ''Hello'' 0xF800 1 (begin_fg fb_zero)))"
    by (simp add: wb_in_bounds_def printWrapped_example)
  have "wb_in_bounds (fst (printWrapped_run wb_zero 3 4 1 ''Hello'' 0xF800 1 (begin_fg fb_zero)))
          \<longrightarrow> safe (printWrapped wb_zero 3 4 1 ''Hello'' 0xF800 1 (begin_fg fb_zero))"
    using a by (elim conjE)
  then have 6: "safe (printWrapped wb_zero 3 4 1 ''Hello'' 0xF800 1 (begin_fg fb_zero))"
    using 5 by (rule mp)
  show ?thesis
    using h 1 2 3 4 5 6 by (intro conjI)
qed


section \<open>The word buffer of printWrapped (C3)\<close>

lemma printWrapped_loop_overflow:
  assumes "\<forall>c \<in> set str. word_byte c" and "str \<noteq> []"
    and "0 \<le> word_len L" and "word_len L \<le> 49" and "50 \<le> word_len L + int (length str)"
  shows "50 \<in> set (wb_writes (fst (printWrapped_loop x maxWidth color sz lh str L s)))"
  using assms
proof (induction str arbitrary: L s)
  case Nil
  then show ?case by simp
next
  case (Cons c str)
  have c: "c \<noteq> NUL" "c \<noteq> CHR '' ''" "c \<noteq> CHR 0x0A" "c \<noteq> CHR 0x09"
    using Cons.prems(1) by (simp_all add: word_byte_def)
  show ?case
  proof (cases "str = []")
    case True
    with Cons.prems have len: "word_len L = 49"
      by simp
    show ?thesis
      using c True len by (simp add: Let_def wb_store_def)
  next
    case False
    then have "hd str \<in> set str" by simp
    with Cons.prems(1) have h: "hd str \<noteq> NUL"
      by (auto simp: word_byte_def)
    let ?L1 = "if word_len L < 49 then (wb_store (word_len L) c L)\<lparr>word_len := word_len L + 1\<rparr> else L"
    have step: "printWrapped_loop x maxWidth color sz lh (c # str) L s
        = printWrapped_loop x maxWidth color sz lh str ?L1 s"
      using c False h by (simp add: Let_def)
    have "1 \<le> int (length str)"
      using False by (cases str) simp_all
    then have l1: "0 \<le> word_len ?L1" "word_len ?L1 \<le> 49" "50 \<le> word_len ?L1 + int (length str)"
      using Cons.prems(3,4,5) by (auto simp: wb_store_def)
    show ?thesis
      unfolding step
      using Cons.prems(1) False l1 by (intro Cons.IH) simp_all
  qed
qed

text \<open>
  C3.  The spec says that every store into the 50-byte word buffer of
  \<^verbatim>\<open>printWrapped\<close> stays inside the buffer, the flush at the end of the string
  included.  The source guards only the branch that appends an ordinary character
  (\<^verbatim>\<open>word_len < 49\<close>).  The branch taken at the last character of the string appends
  that character without the guard and then stores the terminator at index
  \<^verbatim>\<open>word_len\<close>.  So for every string of at least 50 characters that contains no
  space, tab, newline or NUL, the run of \<^verbatim>\<open>printWrapped\<close> stores at index 50 of the
  word buffer, which is one past its last element (the valid indices are 0 to 49).
\<close>

theorem printWrapped_stores_past_word_buffer:
  assumes "\<forall>c \<in> set str. word_byte c" and "50 \<le> length str"
  shows "50 \<in> set (wb_writes (fst (printWrapped_run buf x y maxWidth str color sz s)))"
proof -
  have "str \<noteq> []" "50 \<le> word_len (printWrapped_init x y buf) + int (length str)"
    using assms(2) by (auto simp: printWrapped_init_def)
  then show ?thesis
    unfolding printWrapped_run_def
    using assms(1) by (intro printWrapped_loop_overflow) (simp_all add: printWrapped_init_def)
qed

theorem printWrapped_stores_past_word_buffer_example:
  "word_byte (CHR ''a'') \<and> 50 \<le> length (replicate 50 (CHR ''a''))
   \<and> 50 \<in> set (wb_writes (fst (printWrapped_run wb_zero 0 0 400 (replicate 50 (CHR ''a'')) 0xFFFF 1
                                   (begin_fg fb_zero))))"
proof -
  have h: "\<forall>c \<in> set (replicate 50 (CHR ''a'')). word_byte c" "50 \<le> length (replicate 50 (CHR ''a''))"
    by (simp_all add: word_byte_def NUL_def)
  have w: "word_byte (CHR ''a'')"
    by (simp add: word_byte_def NUL_def)
  show ?thesis
    using w h(2) printWrapped_stores_past_word_buffer [OF h] by (intro conjI)
qed


end
